theory Spec2Isabelle
  imports Complex_Main "HOL-Library.Multiset" "HOL-Library.Char_ord" "HOL-Library.List_Lexorder"
    "HOL-Library.Word" "HOL-Library.Log_Nat"
begin

section \<open>Data model\<close>

text \<open>
  The engine works on \<^verbatim>\<open>using Row = std::map<std::string, std::string>\<close> and
  \<^verbatim>\<open>using Table = std::vector<Row>\<close>. A \<^verbatim>\<open>std::map\<close> is kept here as the list of its
  entries in the order its iterator yields them, that is in strictly ascending key order;
  \<^verbatim>\<open>std::string\<close> comparison is the lexicographic order on bytes, which is the order of
  \<^typ>\<open>string\<close> from the list and character orders. \<open>m.find(k)\<close> is \<^const>\<open>map_of\<close>.
\<close>

type_synonym row = "(string \<times> string) list"
type_synonym table = "row list"

text \<open>The exceptions and aborts the modelled code can end in.\<close>

datatype error =
    OutOfRange          \<comment> \<open>\<open>std::map::at\<close> on a missing key\<close>
  | StodFailure         \<comment> \<open>\<open>std::stod\<close> rejecting its argument\<close>
  | DivisionByZero      \<comment> \<open>integer division by zero\<close>
  | LengthError         \<comment> \<open>\<open>std::vector\<close> asked for more than \<open>max_size()\<close> elements\<close>
  | InvalidRange        \<comment> \<open>a vector built from an iterator pair whose end precedes its start\<close>
  | ComparisonThrew     \<comment> \<open>\<open>std::out_of_range\<close> or the exception of \<open>std::stod\<close>, out of a comparison of \<open>std::sort\<close>\<close>

text \<open>\<open>m[k] = v\<close> on a \<open>std::map\<close>: overwrite the entry, or insert it at its sorted place.\<close>

fun map_assign :: "'k::linorder \<Rightarrow> 'v \<Rightarrow> ('k \<times> 'v) list \<Rightarrow> ('k \<times> 'v) list" where
  "map_assign k v [] = [(k, v)]"
| "map_assign k v ((k', v') # m) =
     (if k < k' then (k, v) # (k', v') # m
      else if k = k' then (k, v) # m
      else (k', v') # map_assign k v m)"

text \<open>\<open>m[k].push_back(x)\<close> on a \<open>std::map\<close> of vectors: a missing entry starts out empty.\<close>

fun map_push_back :: "'k::linorder \<Rightarrow> 'a \<Rightarrow> ('k \<times> 'a list) list \<Rightarrow> ('k \<times> 'a list) list" where
  "map_push_back k x [] = [(k, [x])]"
| "map_push_back k x ((k', xs) # m) =
     (if k < k' then (k, [x]) # (k', xs) # m
      else if k = k' then (k', xs @ [x]) # m
      else (k', xs) # map_push_back k x m)"

text \<open>\<open>m.at(k)\<close>: the value, or \<open>std::out_of_range\<close>.\<close>

definition map_at :: "('k \<times> 'v) list \<Rightarrow> 'k \<Rightarrow> error + 'v" where
  "map_at m k = (case map_of m k of None \<Rightarrow> Inl OutOfRange | Some v \<Rightarrow> Inr v)"

text \<open>The representation invariant of a \<open>std::map\<close>: keys strictly ascending.\<close>

definition wf_map :: "('k::linorder \<times> 'v) list \<Rightarrow> bool" where
  "wf_map m = sorted_wrt (<) (map fst m)"

section \<open>Predicate builders\<close>

definition EQUALS :: "string \<Rightarrow> string \<Rightarrow> row \<Rightarrow> bool" where
  "EQUALS column val r = (map_of r column \<noteq> None \<and> map_of r column = Some val)"

definition JOIN_ON :: "string \<Rightarrow> string \<Rightarrow> row \<Rightarrow> row \<Rightarrow> bool" where
  "JOIN_ON left_column right_column left right =
     (map_of left left_column \<noteq> None \<and> map_of right right_column \<noteq> None \<and>
      map_of left left_column = map_of right right_column)"

section \<open>WHERE\<close>

definition WHERE :: "table \<Rightarrow> (row \<Rightarrow> bool) \<Rightarrow> table" where
  "WHERE tbl predicate = fold (\<lambda>r result. if predicate r then result @ [r] else result) tbl []"

section \<open>Nested-loop joins\<close>

text \<open>
  The merge every join performs on a matched pair:
  \<^verbatim>\<open>Row merged_row = left_row; for (const auto& [key, value] : right_row) merged_row[key] = value;\<close>
\<close>

definition merge_rows :: "row \<Rightarrow> row \<Rightarrow> row" where
  "merge_rows left_row right_row = fold (\<lambda>(k, v) merged_row. map_assign k v merged_row) right_row left_row"

definition INNER_JOIN :: "table \<Rightarrow> table \<Rightarrow> (row \<Rightarrow> row \<Rightarrow> bool) \<Rightarrow> table" where
  "INNER_JOIN left_table right_table join_condition =
     fold (\<lambda>left_row result.
        fold (\<lambda>right_row result.
           if join_condition left_row right_row then result @ [merge_rows left_row right_row]
           else result) right_table result)
       left_table []"

text \<open>The inner loop of \<open>LEFT_JOIN\<close> carries the result and the flag \<open>found_match\<close>.\<close>

definition LEFT_JOIN :: "table \<Rightarrow> table \<Rightarrow> (row \<Rightarrow> row \<Rightarrow> bool) \<Rightarrow> table" where
  "LEFT_JOIN left_table right_table join_condition =
     fold (\<lambda>left_row result.
        (let (result', found_match) =
           fold (\<lambda>right_row (result, found_match).
              if join_condition left_row right_row
              then (result @ [merge_rows left_row right_row], True)
              else (result, found_match)) right_table (result, False)
         in if \<not> found_match then result' @ [left_row] else result'))
       left_table []"

definition CROSS_JOIN :: "table \<Rightarrow> table \<Rightarrow> table" where
  "CROSS_JOIN left_table right_table =
     fold (\<lambda>left_row result.
        fold (\<lambda>right_row result. result @ [merge_rows left_row right_row]) right_table result)
       left_table []"

section \<open>Concurrent hash join\<close>

text \<open>
  \<open>size_t\<close> is an unsigned 64-bit integer. \<open>u64\<close> is the value an integer expression
  has after conversion to \<open>size_t\<close>; the arithmetic of the join is written on integers and
  wrapped by it.
\<close>

definition u64 :: "int \<Rightarrow> nat" where
  "u64 x = nat (x mod 2 ^ 64)"

text \<open>Build phase: for each value of the join column, the right-table indices holding it.\<close>

definition build_index :: "table \<Rightarrow> string \<Rightarrow> (string \<times> nat list) list" where
  "build_index right_table right_column =
     fold (\<lambda>i right_index.
        case map_of (right_table ! i) right_column of
          None \<Rightarrow> right_index
        | Some key \<Rightarrow> map_push_back key i right_index)
       [0..<length right_table] []"

text \<open>
  The lambda \<open>worker\<close>: the loop \<^verbatim>\<open>for (i = start_idx; i < end_idx && i < left_table.size(); i++)\<close>
  visits \<open>[start_idx..<min end_idx (length left_table)]\<close>; the value returned is the
  \<open>local_result\<close> it stores into its slot of \<open>thread_results\<close>.
\<close>

definition worker ::
  "table \<Rightarrow> table \<Rightarrow> string \<Rightarrow> (string \<times> nat list) list \<Rightarrow> nat \<Rightarrow> nat \<Rightarrow> table" where
  "worker left_table right_table left_column right_index start_idx end_idx =
     fold (\<lambda>i local_result.
        (let left_row = left_table ! i in
         case map_of left_row left_column of
           None \<Rightarrow> local_result
         | Some key \<Rightarrow>
            (case map_of right_index key of
               None \<Rightarrow> local_result
             | Some idxs \<Rightarrow>
                fold (\<lambda>right_idx local_result.
                        local_result @ [merge_rows left_row (right_table ! right_idx)])
                  idxs local_result)))
       [start_idx..<min end_idx (length left_table)] []"

text \<open>
  The index arithmetic of the partition, all in \<open>size_t\<close>:
  \<^verbatim>\<open>chunk_size = (left_table.size() + num_threads - 1) / num_threads\<close>,
  \<^verbatim>\<open>start_idx = i * chunk_size\<close> and \<^verbatim>\<open>end_idx = start_idx + chunk_size\<close>.
\<close>

definition chunk_size :: "nat \<Rightarrow> int \<Rightarrow> nat" where
  "chunk_size left_size num_threads = u64 (int left_size + num_threads - 1) div u64 num_threads"

definition start_idx :: "nat \<Rightarrow> nat \<Rightarrow> nat" where
  "start_idx i chunk_sz = u64 (int i * int chunk_sz)"

definition end_idx :: "nat \<Rightarrow> nat \<Rightarrow> nat" where
  "end_idx i chunk_sz = u64 (int (start_idx i chunk_sz) + int chunk_sz)"

text \<open>The left-table indices worker \<open>i\<close> visits, and the rows at them: its chunk.\<close>

definition chunk_range :: "nat \<Rightarrow> int \<Rightarrow> nat \<Rightarrow> nat list" where
  "chunk_range left_size num_threads i =
     [start_idx i (chunk_size left_size num_threads)
        ..<min (end_idx i (chunk_size left_size num_threads)) left_size]"

definition chunk :: "table \<Rightarrow> int \<Rightarrow> nat \<Rightarrow> table" where
  "chunk left_table num_threads i = map ((!) left_table) (chunk_range (length left_table) num_threads i)"

text \<open>
  The join itself. The workers run concurrently; each reads only the shared index and the
  two tables, and writes only its own slot \<open>thread_results[thread_id]\<close>, once, when it is
  done. An execution is therefore given by the order \<open>sched\<close> in which the workers
  store their results, which is the scheduler's choice and an extra argument here.
  \<open>num_threads\<close> is an \<open>int\<close>: zero makes the division that computes \<open>chunk_size\<close>
  a division by zero, and a negative value, converted to \<open>size_t\<close>, asks
  \<open>thread_results\<close> for more elements than a vector can hold.
\<close>

definition INNER_JOIN_sched ::
  "nat list \<Rightarrow> table \<Rightarrow> table \<Rightarrow> string \<Rightarrow> string \<Rightarrow> int \<Rightarrow> error + table" where
  "INNER_JOIN_sched sched left_table right_table left_column right_column num_threads =
     (let right_index = build_index right_table right_column in
      if u64 num_threads = 0 then Inl DivisionByZero
      else
        let chunk_sz = chunk_size (length left_table) num_threads in
        if num_threads < 0 then Inl LengthError
        else
          let thread_results = replicate (nat num_threads) [];
              launch = (\<lambda>i. worker left_table right_table left_column right_index
                               (start_idx i chunk_sz) (end_idx i chunk_sz));
              thread_results =
                fold (\<lambda>thread_id thread_results. thread_results[thread_id := launch thread_id])
                  sched thread_results
          in Inr (concat thread_results))"

text \<open>A schedule of \<open>n\<close> workers: each of the thread ids \<open>0, \<dots>, n - 1\<close> finishes once.\<close>

definition is_schedule :: "nat \<Rightarrow> nat list \<Rightarrow> bool" where
  "is_schedule n sched = (mset sched = mset [0..<n])"

text \<open>The execution in which the workers finish in the order they were launched.\<close>

definition INNER_JOIN_threads :: "table \<Rightarrow> table \<Rightarrow> string \<Rightarrow> string \<Rightarrow> int \<Rightarrow> error + table" where
  "INNER_JOIN_threads left_table right_table left_column right_column num_threads =
     INNER_JOIN_sched [0..<nat num_threads] left_table right_table left_column right_column
       num_threads"

section \<open>GROUP BY and the aggregates\<close>

definition GROUP_BY :: "table \<Rightarrow> string \<Rightarrow> (string \<times> table) list" where
  "GROUP_BY tbl group_column =
     fold (\<lambda>r groups.
        case map_of r group_column of
          None \<Rightarrow> groups
        | Some key \<Rightarrow> map_push_back key r groups)
       tbl []"

text \<open>
  \<open>double\<close>, its arithmetic, \<open>std::stod\<close> and \<open>std::to_string\<close> belong to the C++
  library, not to this program. They are parameters: a type \<open>'d\<close> of doubles and the
  operations the program uses. \<open>stod\<close> returns \<open>None\<close> where \<open>std::stod\<close> throws.
\<close>

record 'd fp =
  stod :: "string \<Rightarrow> 'd option"
  to_string :: "'d \<Rightarrow> string"
  fzero :: "'d"
  fone :: "'d"
  fadd :: "'d \<Rightarrow> 'd \<Rightarrow> 'd"
  fsub :: "'d \<Rightarrow> 'd \<Rightarrow> 'd"
  fmul :: "'d \<Rightarrow> 'd \<Rightarrow> 'd"
  fless :: "'d \<Rightarrow> 'd \<Rightarrow> bool"

text \<open>\<open>std::stod(row.at(column))\<close>: \<open>at\<close> throws first, then \<open>stod\<close>.\<close>

definition stod_at :: "'d fp \<Rightarrow> row \<Rightarrow> string \<Rightarrow> error + 'd" where
  "stod_at F r column =
     (case map_of r column of
        None \<Rightarrow> Inl OutOfRange
      | Some s \<Rightarrow> (case stod F s of None \<Rightarrow> Inl StodFailure | Some v \<Rightarrow> Inr v))"

definition SUM_agg :: "'d fp \<Rightarrow> table \<Rightarrow> string \<Rightarrow> error + 'd" where
  "SUM_agg F grp column =
     fold (\<lambda>r acc.
        case acc of
          Inl e \<Rightarrow> Inl e
        | Inr sum_val \<Rightarrow>
           (case map_of r column of
              None \<Rightarrow> Inr sum_val
            | Some s \<Rightarrow>
               (case stod F s of
                  None \<Rightarrow> Inl StodFailure
                | Some v \<Rightarrow> Inr (fadd F sum_val v))))
       grp (Inr (fzero F))"

definition MAX_agg :: "'d fp \<Rightarrow> table \<Rightarrow> string \<Rightarrow> error + 'd" where
  "MAX_agg F grp column =
     (case grp of
        [] \<Rightarrow> Inr (fzero F)
      | first # _ \<Rightarrow>
         (case stod_at F first column of
            Inl e \<Rightarrow> Inl e
          | Inr seed \<Rightarrow>
             fold (\<lambda>r acc.
                case acc of
                  Inl e \<Rightarrow> Inl e
                | Inr max_val \<Rightarrow>
                   (case map_of r column of
                      None \<Rightarrow> Inr max_val
                    | Some s \<Rightarrow>
                       (case stod F s of
                          None \<Rightarrow> Inl StodFailure
                        | Some val \<Rightarrow> Inr (if fless F max_val val then val else max_val))))
               grp (Inr seed)))"

definition MIN_agg :: "'d fp \<Rightarrow> table \<Rightarrow> string \<Rightarrow> error + 'd" where
  "MIN_agg F grp column =
     (case grp of
        [] \<Rightarrow> Inr (fzero F)
      | first # _ \<Rightarrow>
         (case stod_at F first column of
            Inl e \<Rightarrow> Inl e
          | Inr seed \<Rightarrow>
             fold (\<lambda>r acc.
                case acc of
                  Inl e \<Rightarrow> Inl e
                | Inr min_val \<Rightarrow>
                   (case map_of r column of
                      None \<Rightarrow> Inr min_val
                    | Some s \<Rightarrow>
                       (case stod F s of
                          None \<Rightarrow> Inl StodFailure
                        | Some val \<Rightarrow> Inr (if fless F val min_val then val else min_val))))
               grp (Inr seed)))"

section \<open>LIMIT with OFFSET\<close>

text \<open>
  \<open>limit\<close> and \<open>offset\<close> are \<open>size_t\<close>: 64-bit words, and \<open>offset + limit\<close> wraps.
  A vector built from \<open>begin() + offset\<close> and \<open>begin() + end\<close> holds the \<open>end - offset\<close>
  rows from \<open>offset\<close> on; with \<open>end\<close> before \<open>offset\<close> the construction is invalid.
\<close>

definition LIMIT_OFFSET :: "table \<Rightarrow> 64 word \<Rightarrow> 64 word \<Rightarrow> error + table" where
  "LIMIT_OFFSET tbl limit offset =
     (if length tbl \<le> unat offset then Inr []
      else
        let end = min (unat (offset + limit)) (length tbl) in
        if end < unat offset then Inl InvalidRange
        else Inr (take (end - unat offset) (drop (unat offset) tbl)))"

section \<open>DISTINCT\<close>

text \<open>The string the loop over the row's entries builds: \<open>key + ":" + value + "|"\<close> each.\<close>

definition row_str :: "row \<Rightarrow> string" where
  "row_str r = fold (\<lambda>(key, val) s. s @ key @ '':'' @ val @ ''|'') r []"

definition DISTINCT :: "table \<Rightarrow> table" where
  "DISTINCT tbl =
     fst (fold (\<lambda>r (result, seen).
            if row_str r \<notin> seen then (result @ [r], insert (row_str r) seen)
            else (result, seen))
          tbl ([], {}))"

section \<open>ORDER BY\<close>

text \<open>
  \<open>std::sort\<close> is library code. It is a parameter \<open>srt\<close>, of which only the contract of the
  C++ standard is assumed: given a comparison that is a strict weak ordering, the result is a
  permutation of the input in which no element is less than an earlier one. The standard
  leaves the order of equivalent elements open.
\<close>

definition strict_weak_order :: "('a \<Rightarrow> 'a \<Rightarrow> bool) \<Rightarrow> bool" where
  "strict_weak_order cmp =
     ((\<forall>a. \<not> cmp a a) \<and>
      (\<forall>a b c. cmp a b \<and> cmp b c \<longrightarrow> cmp a c) \<and>
      (\<forall>a b c. \<not> cmp a b \<and> \<not> cmp b a \<and> \<not> cmp b c \<and> \<not> cmp c b \<longrightarrow> \<not> cmp a c \<and> \<not> cmp c a))"

definition std_sort_contract :: "(('a \<Rightarrow> 'a \<Rightarrow> bool) \<Rightarrow> 'a list \<Rightarrow> 'a list) \<Rightarrow> bool" where
  "std_sort_contract srt =
     (\<forall>cmp xs. strict_weak_order cmp \<longrightarrow>
        mset (srt cmp xs) = mset xs \<and> sorted_wrt (\<lambda>a b. \<not> cmp b a) (srt cmp xs))"

text \<open>
  The text orderings of \<^verbatim>\<open>queryclauses.hpp\<close>. The comparison reads \<open>a.at(column)\<close> and
  \<open>b.at(column)\<close>, which throws on a row without the column. A sort of two or more rows
  compares every row at least once; a sort of fewer rows compares nothing.
\<close>

definition ORDER_BY_ASC ::
  "((row \<Rightarrow> row \<Rightarrow> bool) \<Rightarrow> table \<Rightarrow> table) \<Rightarrow> table \<Rightarrow> string \<Rightarrow> error + table" where
  "ORDER_BY_ASC srt tbl column =
     (if 2 \<le> length tbl \<and> (\<exists>r\<in>set tbl. map_of r column = None) then Inl OutOfRange
      else Inr (srt (\<lambda>a b. the (map_of a column) < the (map_of b column)) tbl))"

definition ORDER_BY_DESC ::
  "((row \<Rightarrow> row \<Rightarrow> bool) \<Rightarrow> table \<Rightarrow> table) \<Rightarrow> table \<Rightarrow> string \<Rightarrow> error + table" where
  "ORDER_BY_DESC srt tbl column =
     (if 2 \<le> length tbl \<and> (\<exists>r\<in>set tbl. map_of r column = None) then Inl OutOfRange
      else Inr (srt (\<lambda>a b. the (map_of a column) > the (map_of b column)) tbl))"

text \<open>
  \<open>ORDER_BY_DESC\<close> of \<^verbatim>\<open>sqlhelper.hpp\<close>, the one the query uses: it compares
  \<open>std::stod(a.at(column)) > std::stod(b.at(column))\<close>. A sort of two or more rows compares
  every row at least once, so the sort ends in an exception as soon as one row lacks the
  column or holds a text \<open>std::stod\<close> rejects. Which of \<open>std::out_of_range\<close> and the
  exceptions of \<open>std::stod\<close> it is depends on the order in which \<open>std::sort\<close> compares the
  rows and on the order in which the two operands of \<open>>\<close> are evaluated; the model leaves it
  open and reports \<^const>\<open>ComparisonThrew\<close>.
\<close>

definition ORDER_BY_DESC_stod ::
  "'d fp \<Rightarrow> ((row \<Rightarrow> row \<Rightarrow> bool) \<Rightarrow> table \<Rightarrow> table) \<Rightarrow> table \<Rightarrow> string \<Rightarrow> error + table" where
  "ORDER_BY_DESC_stod F srt tbl column =
     (if 2 \<le> length tbl \<and> (\<exists>r\<in>set tbl. isl (stod_at F r column)) then Inl ComparisonThrew
      else
        Inr (srt (\<lambda>a b. fless F (projr (stod_at F b column)) (projr (stod_at F a column))) tbl))"

section \<open>The query\<close>

text \<open>An exception ends the computation: the rest runs only on a value.\<close>

definition bind_err :: "error + 'a \<Rightarrow> ('a \<Rightarrow> error + 'b) \<Rightarrow> error + 'b" where
  "bind_err m f = (case m of Inl e \<Rightarrow> Inl e | Inr x \<Rightarrow> f x)"

text \<open>\<open>WHERE\<close> with a predicate that can throw, as the two lambdas of the query can.\<close>

definition WHERE_throwing :: "table \<Rightarrow> (row \<Rightarrow> error + bool) \<Rightarrow> error + table" where
  "WHERE_throwing tbl predicate =
     fold (\<lambda>r acc.
        bind_err acc (\<lambda>result.
        bind_err (predicate r) (\<lambda>b. Inr (if b then result @ [r] else result))))
       tbl (Inr [])"

text \<open>The loop that computes \<open>l_extendedprice * (1 - l_discount)\<close> for each joined row.\<close>

definition revenue_rows :: "'d fp \<Rightarrow> table \<Rightarrow> error + table" where
  "revenue_rows F full_join =
     fold (\<lambda>r acc.
        bind_err acc (\<lambda>with_revenue.
        bind_err (map_at r ''N_NAME'') (\<lambda>n_name.
        bind_err (stod_at F r ''L_EXTENDEDPRICE'') (\<lambda>price.
        bind_err (stod_at F r ''L_DISCOUNT'') (\<lambda>discount.
          let revenue = fmul F price (fsub F (fone F) discount);
              new_row = map_assign ''REVENUE'' (to_string F revenue)
                          (map_assign ''N_NAME'' n_name [])
          in Inr (with_revenue @ [new_row]))))))
       full_join (Inr [])"

text \<open>The loop over the groups, in the key order of the \<open>std::map\<close>.\<close>

definition aggregate_rows :: "'d fp \<Rightarrow> (string \<times> table) list \<Rightarrow> error + table" where
  "aggregate_rows F grouped =
     fold (\<lambda>(nation_name, group_rows) acc.
        bind_err acc (\<lambda>aggregated.
        bind_err (SUM_agg F group_rows ''REVENUE'') (\<lambda>s.
          let result_row = map_assign ''REVENUE'' (to_string F s)
                             (map_assign ''N_NAME'' nation_name [])
          in Inr (aggregated @ [result_row]))))
       grouped (Inr [])"

text \<open>
  The loop \<^verbatim>\<open>results[row.at("N_NAME")] = std::stod(row.at("REVENUE"))\<close>; the right-hand side
  of an assignment is evaluated first.
\<close>

definition store_results :: "'d fp \<Rightarrow> table \<Rightarrow> (string \<times> 'd) list \<Rightarrow> error + (string \<times> 'd) list" where
  "store_results F sorted_rows results =
     fold (\<lambda>r acc.
        bind_err acc (\<lambda>results.
        bind_err (stod_at F r ''REVENUE'') (\<lambda>v.
        bind_err (map_at r ''N_NAME'') (\<lambda>n_name. Inr (map_assign n_name v results)))))
       sorted_rows (Inr results)"

text \<open>
  \<open>executeQuery5\<close>. The result is an exception, or the returned \<open>bool\<close> with the map
  \<open>results\<close> as the call leaves it. What is written to \<open>std::cerr\<close> and \<open>std::cout\<close> is left
  out.
\<close>

definition executeQuery5 ::
  "'d fp \<Rightarrow> ((row \<Rightarrow> row \<Rightarrow> bool) \<Rightarrow> table \<Rightarrow> table) \<Rightarrow> string \<Rightarrow> string \<Rightarrow> string \<Rightarrow> int \<Rightarrow>
   table \<Rightarrow> table \<Rightarrow> table \<Rightarrow> table \<Rightarrow> table \<Rightarrow> table \<Rightarrow> (string \<times> 'd) list \<Rightarrow>
   error + (bool \<times> (string \<times> 'd) list)" where
  "executeQuery5 F srt r_name start_date end_date num_threads
       customer_data orders_data lineitem_data supplier_data nation_data region_data results =
     (let filtered_region = WHERE region_data (EQUALS ''R_NAME'' r_name) in
      if filtered_region = [] then Inr (False, results)
      else
        bind_err (INNER_JOIN_threads nation_data filtered_region
                    ''N_REGIONKEY'' ''R_REGIONKEY'' num_threads) (\<lambda>nation_region.
        bind_err (INNER_JOIN_threads customer_data nation_region
                    ''C_NATIONKEY'' ''N_NATIONKEY'' num_threads) (\<lambda>customer_nation.
        bind_err (WHERE_throwing orders_data (\<lambda>r.
                    bind_err (map_at r ''O_ORDERDATE'') (\<lambda>date.
                      Inr (date \<ge> start_date \<and> date < end_date)))) (\<lambda>filtered_orders.
        bind_err (INNER_JOIN_threads customer_nation filtered_orders
                    ''C_CUSTKEY'' ''O_CUSTKEY'' num_threads) (\<lambda>customer_orders.
        bind_err (INNER_JOIN_threads supplier_data nation_region
                    ''S_NATIONKEY'' ''N_NATIONKEY'' num_threads) (\<lambda>supplier_nation.
        bind_err (INNER_JOIN_threads lineitem_data customer_orders
                    ''L_ORDERKEY'' ''O_ORDERKEY'' num_threads) (\<lambda>lineitem_orders.
        bind_err (INNER_JOIN_threads lineitem_orders supplier_nation
                    ''L_SUPPKEY'' ''S_SUPPKEY'' num_threads) (\<lambda>temp_join.
        bind_err (WHERE_throwing temp_join (\<lambda>r.
                    bind_err (map_at r ''C_NATIONKEY'') (\<lambda>c_nationkey.
                    bind_err (map_at r ''S_NATIONKEY'') (\<lambda>s_nationkey.
                      Inr (c_nationkey = s_nationkey))))) (\<lambda>full_join.
        bind_err (revenue_rows F full_join) (\<lambda>with_revenue.
        bind_err (aggregate_rows F (GROUP_BY with_revenue ''N_NAME'')) (\<lambda>aggregated.
        bind_err (ORDER_BY_DESC_stod F srt aggregated ''REVENUE'') (\<lambda>sorted_rows.
        bind_err (store_results F sorted_rows results) (\<lambda>results.
          Inr (True, results))))))))))))))"

text \<open>
  The inputs the query is meant for: every row is a map, the columns the query reads with
  \<open>at\<close> are there (the name of a nation, the date of an order, price and discount of a line
  item), and wherever a row has a price or a discount \<open>std::stod\<close> accepts it.
\<close>

definition has_column :: "table \<Rightarrow> string \<Rightarrow> bool" where
  "has_column tbl column = (\<forall>r\<in>set tbl. map_of r column \<noteq> None)"

definition numeric_columns :: "string set" where
  "numeric_columns = {''L_EXTENDEDPRICE'', ''L_DISCOUNT''}"

definition numeric_fields_ok :: "'d fp \<Rightarrow> table \<Rightarrow> bool" where
  "numeric_fields_ok F tbl =
     (\<forall>r\<in>set tbl. wf_map r \<and>
        (\<forall>k\<in>numeric_columns. case map_of r k of None \<Rightarrow> True | Some s \<Rightarrow> stod F s \<noteq> None))"

definition well_formed_inputs :: "'d fp \<Rightarrow> table \<Rightarrow> table \<Rightarrow> table \<Rightarrow> table \<Rightarrow> table \<Rightarrow> table \<Rightarrow> bool" where
  "well_formed_inputs F customer_data orders_data lineitem_data supplier_data nation_data
       region_data =
     (numeric_fields_ok F customer_data \<and> numeric_fields_ok F orders_data \<and>
      numeric_fields_ok F lineitem_data \<and> numeric_fields_ok F supplier_data \<and>
      numeric_fields_ok F nation_data \<and> numeric_fields_ok F region_data \<and>
      has_column nation_data ''N_NAME'' \<and> has_column orders_data ''O_ORDERDATE'' \<and>
      has_column lineitem_data ''L_EXTENDEDPRICE'' \<and> has_column lineitem_data ''L_DISCOUNT'')"

text \<open>
  The library behaves: \<open>std::sort\<close> keeps its contract, \<open><\<close> on the doubles that occur is a
  strict weak ordering (there is no NaN), and \<open>std::stod\<close> reads back what \<open>std::to_string\<close>
  prints.
\<close>

definition library_ok :: "'d fp \<Rightarrow> ((row \<Rightarrow> row \<Rightarrow> bool) \<Rightarrow> table \<Rightarrow> table) \<Rightarrow> bool" where
  "library_ok F srt =
     (std_sort_contract srt \<and> strict_weak_order (fless F) \<and> (\<forall>d. stod F (to_string F d) \<noteq> None))"

text \<open>
  What the specification asks of \<open>DISTINCT\<close>, in its own words: the first occurrence of each
  row, rows compared by their full set of fields and values, the kept rows in their original
  order. (A row is the sorted list of its entries, so two rows are equal as mappings exactly
  when they are equal as lists.)
\<close>

definition distinct_spec :: "table \<Rightarrow> table" where
  "distinct_spec tbl = fold (\<lambda>r result. if r \<in> set result then result else result @ [r]) tbl []"

text \<open>
  Invariants of the pipeline, for the proofs. Through the joins: whatever price or discount
  an entry of the row holds, \<open>std::stod\<close> accepts it, and the row has the listed columns.
  After the revenue loop: the row is a nation name and a revenue printed by
  \<open>std::to_string\<close>.
\<close>

definition row_inv :: "'d fp \<Rightarrow> string list \<Rightarrow> row \<Rightarrow> bool" where
  "row_inv F columns r =
     ((\<forall>(k, s)\<in>set r. k \<in> numeric_columns \<longrightarrow> stod F s \<noteq> None) \<and>
      (\<forall>k\<in>set columns. map_of r k \<noteq> None))"

definition is_revenue_row :: "'d fp \<Rightarrow> row \<Rightarrow> bool" where
  "is_revenue_row F r = (\<exists>n v. r = [(''N_NAME'', n), (''REVENUE'', to_string F v)])"

section \<open>Example tables\<close>

text \<open>Small rows and tables on which the theorems below are instantiated.\<close>

definition wrow1 :: row where "wrow1 = [(''id'', ''1''), (''k'', ''a'')]"

definition wrow2 :: row where "wrow2 = [(''id'', ''2''), (''k'', ''b'')]"

definition wrow3 :: row where "wrow3 = [(''id'', ''3''), (''k'', ''a'')]"

definition wrowR1 :: row where "wrowR1 = [(''id'', ''9''), (''rk'', ''a'')]"

definition wrowR2 :: row where "wrowR2 = [(''rk'', ''b''), (''z'', ''7'')]"

definition wrow_bar :: row where "wrow_bar = [(''a'', ''b|c:d'')]"

definition wrow_two :: row where "wrow_two = [(''a'', ''b''), (''c'', ''d'')]"

text \<open>
  A sort for the examples: insertion sort, the rows taken from left to right and each one put
  behind the rows it is not less than, so that equal rows keep their order. On up to 16
  elements it is what \<open>std::sort\<close> of the GNU library does (\<open>gnu_sort\<close> below).
\<close>

fun insert_by :: "('a \<Rightarrow> 'a \<Rightarrow> bool) \<Rightarrow> 'a \<Rightarrow> 'a list \<Rightarrow> 'a list" where
  "insert_by cmp x [] = [x]"
| "insert_by cmp x (y # ys) = (if cmp x y then x # y # ys else y # insert_by cmp x ys)"

definition sort_ex :: "('a \<Rightarrow> 'a \<Rightarrow> bool) \<Rightarrow> 'a list \<Rightarrow> 'a list" where
  "sort_ex cmp xs = fold (insert_by cmp) xs []"

text \<open>
  \<open>std::sort\<close> as the GNU C++ library implements it (\<^verbatim>\<open>bits/stl_algo.h\<close>): an introsort
  loop that partitions every range of more than 16 elements around the median of three of
  them, and a final insertion sort. The array is a list, iterators are indices into it, and
  \<open>None\<close> stands for what the model does not cover: an access outside the array, which
  cannot happen when the comparison is a strict weak ordering, and the heap sort the library
  falls back on when the recursion is deeper than \<open>2 * floor (log2 n)\<close>.
\<close>

definition iter_swap :: "nat \<Rightarrow> nat \<Rightarrow> 'a list \<Rightarrow> 'a list" where
  "iter_swap i j a = a[i := a ! j, j := a ! i]"

definition move_median_to_first ::
  "('a \<Rightarrow> 'a \<Rightarrow> bool) \<Rightarrow> nat \<Rightarrow> nat \<Rightarrow> nat \<Rightarrow> nat \<Rightarrow> 'a list \<Rightarrow> 'a list" where
  "move_median_to_first cmp result ia ib ic a =
     (if cmp (a ! ia) (a ! ib) then
        (if cmp (a ! ib) (a ! ic) then iter_swap result ib a
         else if cmp (a ! ia) (a ! ic) then iter_swap result ic a
         else iter_swap result ia a)
      else if cmp (a ! ia) (a ! ic) then iter_swap result ia a
      else if cmp (a ! ib) (a ! ic) then iter_swap result ic a
      else iter_swap result ib a)"

text \<open>
  \<open>while (comp(first, pivot)) ++first;\<close> The loop has no bounds check; it leaves the array
  after at most as many steps as the array is long, which is the fuel it is given.
\<close>

fun scan_up :: "nat \<Rightarrow> ('a \<Rightarrow> 'a \<Rightarrow> bool) \<Rightarrow> 'a list \<Rightarrow> nat \<Rightarrow> nat \<Rightarrow> nat option" where
  "scan_up 0 cmp a pivot first = None"
| "scan_up (Suc fuel) cmp a pivot first =
     (if length a \<le> first then None
      else if cmp (a ! first) (a ! pivot) then scan_up fuel cmp a pivot (Suc first)
      else Some first)"

text \<open>\<open>while (comp(pivot, last)) --last;\<close>\<close>

fun scan_down :: "('a \<Rightarrow> 'a \<Rightarrow> bool) \<Rightarrow> 'a list \<Rightarrow> nat \<Rightarrow> nat \<Rightarrow> nat option" where
  "scan_down cmp a pivot 0 = (if cmp (a ! pivot) (a ! 0) then None else Some 0)"
| "scan_down cmp a pivot (Suc l) =
     (if cmp (a ! pivot) (a ! Suc l) then scan_down cmp a pivot l else Some (Suc l))"

text \<open>
  \<open>__unguarded_partition\<close>: every round moves \<open>first\<close> up by at least one, so the length of
  the array is fuel enough.
\<close>

fun unguarded_partition ::
  "nat \<Rightarrow> ('a \<Rightarrow> 'a \<Rightarrow> bool) \<Rightarrow> 'a list \<Rightarrow> nat \<Rightarrow> nat \<Rightarrow> nat \<Rightarrow> (nat \<times> 'a list) option" where
  "unguarded_partition 0 cmp a first last_it pivot = None"
| "unguarded_partition (Suc fuel) cmp a first last_it pivot =
     (case scan_up (Suc (length a)) cmp a pivot first of
        None \<Rightarrow> None
      | Some first' \<Rightarrow>
         if last_it = 0 then None
         else
           (case scan_down cmp a pivot (last_it - 1) of
              None \<Rightarrow> None
            | Some last_it' \<Rightarrow>
               if \<not> first' < last_it' then Some (first', a)
               else unguarded_partition fuel cmp (iter_swap first' last_it' a) (Suc first') last_it' pivot))"

definition unguarded_partition_pivot ::
  "('a \<Rightarrow> 'a \<Rightarrow> bool) \<Rightarrow> 'a list \<Rightarrow> nat \<Rightarrow> nat \<Rightarrow> (nat \<times> 'a list) option" where
  "unguarded_partition_pivot cmp a first last_it =
     (let mid = first + (last_it - first) div 2 in
      unguarded_partition (Suc (length a)) cmp
        (move_median_to_first cmp first (first + 1) mid (last_it - 1) a) (first + 1) last_it first)"

text \<open>
  \<open>__introsort_loop\<close>: the loop and the recursive call both go on with \<open>depth_limit\<close>
  lowered by one, so the recursion is on \<open>depth_limit\<close>.
\<close>

fun introsort_loop ::
  "('a \<Rightarrow> 'a \<Rightarrow> bool) \<Rightarrow> 'a list \<Rightarrow> nat \<Rightarrow> nat \<Rightarrow> nat \<Rightarrow> 'a list option" where
  "introsort_loop cmp a first last_it 0 = (if 16 < last_it - first then None else Some a)"
| "introsort_loop cmp a first last_it (Suc depth_limit) =
     (if 16 < last_it - first then
        (case unguarded_partition_pivot cmp a first last_it of
           None \<Rightarrow> None
         | Some (cut_it, a') \<Rightarrow>
            (case introsort_loop cmp a' cut_it last_it depth_limit of
               None \<Rightarrow> None
             | Some a'' \<Rightarrow> introsort_loop cmp a'' first cut_it depth_limit))
      else Some a)"

text \<open>
  \<open>__unguarded_linear_insert\<close>: \<open>val\<close> is the element taken out at the hole, and the
  elements before the hole move up while \<open>val\<close> is less than them.
\<close>

fun unguarded_linear_insert ::
  "('a \<Rightarrow> 'a \<Rightarrow> bool) \<Rightarrow> 'a \<Rightarrow> 'a list \<Rightarrow> nat \<Rightarrow> 'a list option" where
  "unguarded_linear_insert cmp val a 0 = None"
| "unguarded_linear_insert cmp val a (Suc next) =
     (if cmp val (a ! next) then unguarded_linear_insert cmp val (a[Suc next := a ! next]) next
      else Some (a[Suc next := val]))"

text \<open>
  \<open>__insertion_sort\<close>: an element less than the first one goes to the front, the elements
  before it moving up by one; any other is inserted without a bounds check.
\<close>

definition insertion_sort ::
  "('a \<Rightarrow> 'a \<Rightarrow> bool) \<Rightarrow> 'a list \<Rightarrow> nat \<Rightarrow> nat \<Rightarrow> 'a list option" where
  "insertion_sort cmp a first last_it =
     fold (\<lambda>i acc.
        case acc of
          None \<Rightarrow> None
        | Some b \<Rightarrow>
           if cmp (b ! i) (b ! first)
           then Some (take first b @ (b ! i) # take (i - first) (drop first b) @ drop (Suc i) b)
           else unguarded_linear_insert cmp (b ! i) b i)
       [first + 1 ..< last_it] (Some a)"

definition unguarded_insertion_sort ::
  "('a \<Rightarrow> 'a \<Rightarrow> bool) \<Rightarrow> 'a list \<Rightarrow> nat \<Rightarrow> nat \<Rightarrow> 'a list option" where
  "unguarded_insertion_sort cmp a first last_it =
     fold (\<lambda>i acc.
        case acc of
          None \<Rightarrow> None
        | Some b \<Rightarrow> unguarded_linear_insert cmp (b ! i) b i)
       [first ..< last_it] (Some a)"

definition final_insertion_sort ::
  "('a \<Rightarrow> 'a \<Rightarrow> bool) \<Rightarrow> 'a list \<Rightarrow> nat \<Rightarrow> nat \<Rightarrow> 'a list option" where
  "final_insertion_sort cmp a first last_it =
     (if 16 < last_it - first then
        (case insertion_sort cmp a first (first + 16) of
           None \<Rightarrow> None
         | Some b \<Rightarrow> unguarded_insertion_sort cmp b (first + 16) last_it)
      else insertion_sort cmp a first last_it)"

text \<open>\<open>std::__lg\<close>: the floor of the binary logarithm.\<close>

definition lg :: "nat \<Rightarrow> nat" where
  "lg n = floorlog 2 n - 1"

definition gnu_sort_opt :: "('a \<Rightarrow> 'a \<Rightarrow> bool) \<Rightarrow> 'a list \<Rightarrow> 'a list option" where
  "gnu_sort_opt cmp a =
     (if a = [] then Some a
      else
        (case introsort_loop cmp a 0 (length a) (lg (length a) * 2) of
           None \<Rightarrow> None
         | Some b \<Rightarrow> final_insertion_sort cmp b 0 (length a)))"

text \<open>The sort as a function, for the inputs the model covers.\<close>

definition gnu_sort :: "('a \<Rightarrow> 'a \<Rightarrow> bool) \<Rightarrow> 'a list \<Rightarrow> 'a list" where
  "gnu_sort cmp a = the (gnu_sort_opt cmp a)"

text \<open>Seventeen rows, told apart by \<open>id\<close>, that all hold the same text in column \<open>k\<close>.\<close>

definition wrow_id :: "string \<Rightarrow> row" where
  "wrow_id i = [(''id'', i), (''k'', ''x'')]"

definition wtable17 :: table where
  "wtable17 = map wrow_id [''01'', ''02'', ''03'', ''04'', ''05'', ''06'', ''07'', ''08'', ''09'',
                           ''10'', ''11'', ''12'', ''13'', ''14'', ''15'', ''16'', ''17'']"

text \<open>The scenario of the specification: one order of one line item, in one region.\<close>

definition wregion :: table where
  "wregion = [[(''R_NAME'', ''ASIA''), (''R_REGIONKEY'', ''1'')]]"

definition wnation :: table where
  "wnation = [[(''N_NAME'', ''CHINA''), (''N_NATIONKEY'', ''10''), (''N_REGIONKEY'', ''1'')],
              [(''N_NAME'', ''INDIA''), (''N_NATIONKEY'', ''11''), (''N_REGIONKEY'', ''1'')]]"

definition wcustomer :: table where
  "wcustomer = [[(''C_CUSTKEY'', ''100''), (''C_NATIONKEY'', ''10'')]]"

definition worders :: table where
  "worders = [[(''O_CUSTKEY'', ''100''), (''O_ORDERDATE'', ''1994-06-01''), (''O_ORDERKEY'', ''1000'')]]"

definition wlineitem :: table where
  "wlineitem = [[(''L_DISCOUNT'', ''0.1''), (''L_EXTENDEDPRICE'', ''100.0''),
                 (''L_ORDERKEY'', ''1000''), (''L_SUPPKEY'', ''500'')]]"

definition wsupplier :: table where
  "wsupplier = [[(''S_NATIONKEY'', ''10''), (''S_SUPPKEY'', ''500'')]]"

definition wtable5 :: table where
  "wtable5 = [[(''k'', ''0'')], [(''k'', ''1'')], [(''k'', ''2'')], [(''k'', ''3'')], [(''k'', ''4'')]]"

text \<open>
  An instance of the library parameters for the examples: doubles are real numbers, and
  \<open>stod\<close> and \<open>to_string\<close> are given on the handful of texts and values the examples use.
  \<open>std::stod\<close> reads the longest number a text starts with and ignores what follows it, so
  \<open>2abc\<close> is read as 2; a text that starts with no number, such as \<open>abc\<close>, is rejected.
\<close>

definition stod_ex :: "string \<Rightarrow> real option" where
  "stod_ex s =
     (if s = ''100.0'' then Some 100
      else if s = ''0.1'' then Some (1 / 10)
      else if s = ''90.000000'' then Some 90
      else if s = ''0.000000'' then Some 0
      else if s = ''1.5'' then Some (3 / 2)
      else if s = ''2'' then Some 2
      else if s = ''2abc'' then Some 2
      else if s = ''7'' then Some 7
      else None)"

definition to_string_ex :: "real \<Rightarrow> string" where
  "to_string_ex d = (if d = 90 then ''90.000000'' else ''0.000000'')"

definition fp_ex :: "real fp" where
  "fp_ex = \<lparr>stod = stod_ex, to_string = to_string_ex, fzero = 0, fone = 1,
            fadd = (+), fsub = (-), fmul = (*), fless = (<)\<rparr>"

section \<open>Helper lemmas: maps\<close>

lemma map_of_map_assign: "map_of (map_assign k v m) = (map_of m)(k \<mapsto> v)"
  by (induction m) (auto simp: fun_eq_iff)

lemma set_fst_map_assign: "fst ` set (map_assign k v m) = insert k (fst ` set m)"
proof -
  have "fst ` set (map_assign k v m) = dom (map_of (map_assign k v m))"
    by (simp add: dom_map_of_conv_image_fst)
  also have "\<dots> = insert k (dom (map_of m))"
    by (simp add: map_of_map_assign)
  finally show ?thesis by (simp add: dom_map_of_conv_image_fst)
qed

lemma wf_map_assign: "wf_map m \<Longrightarrow> wf_map (map_assign k v m)"
  unfolding wf_map_def
proof (induction m)
  case Nil
  then show ?case by simp
next
  case (Cons a m)
  obtain k' v' where a: "a = (k', v')" by (cases a)
  from Cons.prems have tl: "sorted_wrt (<) (map fst m)" and hd: "\<forall>x\<in>set m. k' < fst x"
    by (auto simp: a)
  show ?case
  proof (cases "k < k'")
    case True
    with Cons.prems show ?thesis by (auto simp: a)
  next
    case False
    show ?thesis
    proof (cases "k = k'")
      case True
      with Cons.prems show ?thesis by (auto simp: a)
    next
      case ne: False
      with False have lt: "k' < k" by simp
      have "\<forall>x\<in>set (map_assign k v m). k' < fst x"
      proof
        fix x assume "x \<in> set (map_assign k v m)"
        then have "fst x \<in> insert k (fst ` set m)"
          using set_fst_map_assign [of k v m] by blast
        with lt hd show "k' < fst x" by auto
      qed
      with Cons.IH [OF tl] False ne show ?thesis by (simp add: a)
    qed
  qed
qed

lemma map_of_merge_rows: "map_of (merge_rows l r) = map_of l ++ map_of (rev r)"
  unfolding merge_rows_def
proof (induction r arbitrary: l)
  case Nil
  then show ?case by simp
next
  case (Cons a r)
  obtain k v where a: "a = (k, v)" by (cases a)
  show ?case
    by (simp add: a Cons.IH map_of_map_assign fun_eq_iff map_add_def split: option.splits)
qed

section \<open>Helper lemmas: joins\<close>

lemma fold_append_acc: "fold (\<lambda>x res. res @ f x) xs acc = acc @ concat (map f xs)"
  by (induction xs arbitrary: acc) auto

lemma fold_filter_acc:
  "fold (\<lambda>x res. if P x then res @ [g x] else res) xs acc = acc @ map g (filter P xs)"
  by (induction xs arbitrary: acc) auto

lemma WHERE_filter: "WHERE tbl p = filter p tbl"
  using fold_filter_acc [of p "\<lambda>x. x" tbl "[]"] by (simp add: WHERE_def)

lemma INNER_JOIN_concat:
  "INNER_JOIN L R p = concat (map (\<lambda>l. map (merge_rows l) (filter (p l) R)) L)"
  unfolding INNER_JOIN_def fold_filter_acc
  using fold_append_acc [of "\<lambda>l. map (merge_rows l) (filter (p l) R)" L "[]"] by simp

lemma CROSS_JOIN_concat:
  "CROSS_JOIN L R = concat (map (\<lambda>l. map (merge_rows l) R) L)"
proof -
  have inner: "fold (\<lambda>r res. res @ [merge_rows l r]) R acc = acc @ map (merge_rows l) R" for l acc
    using fold_filter_acc [of "\<lambda>_. True" "merge_rows l" R acc] by simp
  show ?thesis
    unfolding CROSS_JOIN_def inner
    using fold_append_acc [of "\<lambda>l. map (merge_rows l) R" L "[]"] by simp
qed

lemma LEFT_JOIN_inner:
  "fold (\<lambda>right_row (result, found_match).
      if p l right_row then (result @ [merge_rows l right_row], True)
      else (result, found_match)) R (acc, b)
   = (acc @ map (merge_rows l) (filter (p l) R), b \<or> filter (p l) R \<noteq> [])"
  by (induction R arbitrary: acc b) auto

lemma LEFT_JOIN_concat:
  "LEFT_JOIN L R p =
     concat (map (\<lambda>l. if filter (p l) R = [] then [l] else map (merge_rows l) (filter (p l) R)) L)"
proof -
  have step: "(\<lambda>left_row result.
        (let (result', found_match) =
           fold (\<lambda>right_row (result, found_match).
              if p left_row right_row
              then (result @ [merge_rows left_row right_row], True)
              else (result, found_match)) R (result, False)
         in if \<not> found_match then result' @ [left_row] else result'))
     = (\<lambda>l res. res @ (if filter (p l) R = [] then [l] else map (merge_rows l) (filter (p l) R)))"
    by (intro ext) (simp add: LEFT_JOIN_inner)
  show ?thesis
    unfolding LEFT_JOIN_def step
    using fold_append_acc [of "\<lambda>l. if filter (p l) R = [] then [l] else map (merge_rows l) (filter (p l) R)" L "[]"]
    by simp
qed

lemma wf_map_distinct: "wf_map m \<Longrightarrow> distinct (map fst m)"
  unfolding wf_map_def by (simp add: strict_sorted_iff)

lemma map_of_rev_distinct: "distinct (map fst m) \<Longrightarrow> map_of (rev m) = map_of m"
  by (metis distinct_rev map_of_inject_set rev_map set_rev)

lemma wf_merge_rows: "wf_map l \<Longrightarrow> wf_map (merge_rows l r)"
  unfolding merge_rows_def
  by (induction r arbitrary: l) (auto simp: wf_map_assign)

lemma keys_merge_rows: "fst ` set (merge_rows l r) = fst ` set l \<union> fst ` set r"
proof -
  have "fst ` set (merge_rows l r) = dom (map_of (merge_rows l r))"
    by (simp add: dom_map_of_conv_image_fst)
  also have "\<dots> = dom (map_of l) \<union> dom (map_of (rev r))"
    by (auto simp: map_of_merge_rows)
  finally show ?thesis by (simp add: dom_map_of_conv_image_fst)
qed

lemma map_of_merge_rows_wf:
  "wf_map r \<Longrightarrow> map_of (merge_rows l r) k = (case map_of r k of Some v \<Rightarrow> Some v | None \<Rightarrow> map_of l k)"
  by (simp add: map_of_merge_rows map_of_rev_distinct wf_map_distinct map_add_def)

lemma map_fst_map_push_back:
  "map fst (map_push_back k x m) = map fst (map_assign k v (map (\<lambda>(k, xs). (k, v)) m))"
  by (induction m) auto

lemma map_push_back_keys: "fst ` set (map_push_back k x m) = insert k (fst ` set m)"
proof -
  have "fst ` set (map_push_back k x m) = set (map fst (map_push_back k x m))"
    by simp
  also have "\<dots> = fst ` set (map_assign k () (map (\<lambda>(k, xs). (k, ())) m))"
    by (simp only: map_fst_map_push_back [where v = "()"] set_map)
  also have "\<dots> = insert k (fst ` set m)"
    by (simp only: set_fst_map_assign) (force simp: image_iff)
  finally show ?thesis .
qed

lemma wf_map_push_back: "wf_map m \<Longrightarrow> wf_map (map_push_back k x m)"
  unfolding wf_map_def
proof (induction m)
  case Nil
  then show ?case by simp
next
  case (Cons a m)
  obtain k' xs where a: "a = (k', xs)" by (cases a)
  from Cons.prems have tl: "sorted_wrt (<) (map fst m)" and hd: "\<forall>y\<in>set m. k' < fst y"
    by (auto simp: a)
  show ?case
  proof (cases "k < k'")
    case True
    with Cons.prems show ?thesis by (auto simp: a)
  next
    case False
    show ?thesis
    proof (cases "k = k'")
      case True
      with Cons.prems show ?thesis by (auto simp: a)
    next
      case ne: False
      with False have lt: "k' < k" by simp
      have "\<forall>y\<in>set (map_push_back k x m). k' < fst y"
      proof
        fix y assume "y \<in> set (map_push_back k x m)"
        then have "fst y \<in> insert k (fst ` set m)"
          using map_push_back_keys [of k x m] by blast
        with lt hd show "k' < fst y" by auto
      qed
      with Cons.IH [OF tl] False ne show ?thesis by (simp add: a)
    qed
  qed
qed

lemma wf_map_hd_notin: "wf_map ((k', v) # m) \<Longrightarrow> k < k' \<Longrightarrow> map_of m k = None"
  unfolding wf_map_def by (force simp: map_of_eq_None_iff)

lemma map_of_map_push_back:
  "wf_map m \<Longrightarrow>
   map_of (map_push_back k x m) =
     (map_of m)(k \<mapsto> (case map_of m k of None \<Rightarrow> [x] | Some xs \<Rightarrow> xs @ [x]))"
proof (induction m)
  case Nil
  then show ?case by simp
next
  case (Cons a m)
  obtain k' xs where a: "a = (k', xs)" by (cases a)
  from Cons.prems have tl: "wf_map m" by (simp add: wf_map_def)
  show ?case
  proof (cases "k < k'")
    case True
    with Cons.prems have "map_of m k = None" by (simp add: a wf_map_hd_notin)
    with True show ?thesis by (auto simp: a fun_eq_iff)
  next
    case False
    then show ?thesis using Cons.IH [OF tl] by (auto simp: a fun_eq_iff)
  qed
qed

text \<open>The loop shared by the index build and GROUP BY.\<close>

lemma fold_push_back_wf:
  "wf_map m \<Longrightarrow>
   wf_map (fold (\<lambda>x m. case kf x of None \<Rightarrow> m | Some k \<Rightarrow> map_push_back k (vf x) m) xs m)"
  by (induction xs arbitrary: m) (auto simp: wf_map_push_back split: option.splits)

lemma fold_push_back_lookup:
  "wf_map m \<Longrightarrow>
   map_of (fold (\<lambda>x m. case kf x of None \<Rightarrow> m | Some k \<Rightarrow> map_push_back k (vf x) m) xs m) k =
     (case map_of m k of
        None \<Rightarrow> (if filter (\<lambda>x. kf x = Some k) xs = [] then None
                 else Some (map vf (filter (\<lambda>x. kf x = Some k) xs)))
      | Some old \<Rightarrow> Some (old @ map vf (filter (\<lambda>x. kf x = Some k) xs)))"
proof (induction xs arbitrary: m)
  case Nil
  then show ?case by (simp split: option.splits)
next
  case (Cons x xs)
  show ?case
  proof (cases "kf x")
    case None
    with Cons show ?thesis by (simp split: option.splits)
  next
    case (Some k')
    have wf': "wf_map (map_push_back k' (vf x) m)"
      using Cons.prems by (rule wf_map_push_back)
    show ?thesis
      using Cons.IH [OF wf'] Some
      by (simp add: map_of_map_push_back [OF Cons.prems] split: option.splits)
  qed
qed

lemma wf_build_index: "wf_map (build_index R rc)"
  unfolding build_index_def
  using fold_push_back_wf [where m = "[]" and kf = "\<lambda>i. map_of (R ! i) rc" and vf = "\<lambda>i. i"
      and xs = "[0..<length R]"]
  by (simp add: wf_map_def)

lemma build_index_lookup:
  "map_of (build_index R rc) k =
     (if filter (\<lambda>i. map_of (R ! i) rc = Some k) [0..<length R] = [] then None
      else Some (filter (\<lambda>i. map_of (R ! i) rc = Some k) [0..<length R]))"
  unfolding build_index_def
  using fold_push_back_lookup [where m = "[]" and kf = "\<lambda>i. map_of (R ! i) rc" and vf = "\<lambda>i. i"
      and xs = "[0..<length R]" and k = k]
  by (simp add: wf_map_def)

lemma filter_by_index: "filter P xs = map ((!) xs) (filter (\<lambda>i. P (xs ! i)) [0..<length xs])"
proof -
  have "filter P (map ((!) xs) [0..<length xs]) = map ((!) xs) (filter (\<lambda>i. P (xs ! i)) [0..<length xs])"
    by (simp add: filter_map comp_def)
  then show ?thesis by (simp add: map_nth)
qed

text \<open>What one left row contributes to the probe.\<close>

lemma probe_row:
  "(let left_row = l in
     case map_of left_row lc of
       None \<Rightarrow> local_result
     | Some key \<Rightarrow>
        (case map_of (build_index R rc) key of
           None \<Rightarrow> local_result
         | Some idxs \<Rightarrow>
            fold (\<lambda>right_idx local_result. local_result @ [merge_rows left_row (R ! right_idx)])
              idxs local_result))
   = local_result @ map (merge_rows l) (filter (JOIN_ON lc rc l) R)"
proof (cases "map_of l lc")
  case None
  then show ?thesis by (simp add: JOIN_ON_def)
next
  case (Some key)
  let ?idxs = "filter (\<lambda>i. map_of (R ! i) rc = Some key) [0..<length R]"
  have J: "JOIN_ON lc rc l = (\<lambda>r. map_of r rc = Some key)"
    using Some by (auto simp: JOIN_ON_def fun_eq_iff)
  have F: "filter (JOIN_ON lc rc l) R = map ((!) R) ?idxs"
    unfolding J by (rule filter_by_index)
  have inner: "fold (\<lambda>right_idx local_result. local_result @ [merge_rows l (R ! right_idx)]) idxs acc
        = acc @ map (\<lambda>i. merge_rows l (R ! i)) idxs" for idxs acc
    using fold_filter_acc [of "\<lambda>_. True" "\<lambda>i. merge_rows l (R ! i)" idxs acc] by simp
  show ?thesis
    using Some by (simp add: build_index_lookup inner F comp_def)
qed

lemma worker_eq:
  "worker L R lc (build_index R rc) s e =
     concat (map (\<lambda>i. map (merge_rows (L ! i)) (filter (JOIN_ON lc rc (L ! i)) R))
       [s..<min e (length L)])"
  unfolding worker_def probe_row
  using fold_append_acc [of "\<lambda>i. map (merge_rows (L ! i)) (filter (JOIN_ON lc rc (L ! i)) R)"
      "[s..<min e (length L)]" "[]"]
  by simp

lemma slice_map_nth: "map ((!) L) [s..<min e (length L)] = take (min e (length L) - s) (drop s L)"
proof (rule nth_equalityI)
  show "length (map ((!) L) [s..<min e (length L)]) = length (take (min e (length L) - s) (drop s L))"
    by auto
next
  fix i assume "i < length (map ((!) L) [s..<min e (length L)])"
  then have i: "i < min e (length L) - s" by simp
  then have "s + i < length L" by simp
  with i show "map ((!) L) [s..<min e (length L)] ! i = take (min e (length L) - s) (drop s L) ! i"
    by simp
qed

lemma worker_INNER_JOIN:
  "worker L R lc (build_index R rc) s e =
     INNER_JOIN (take (min e (length L) - s) (drop s L)) R (JOIN_ON lc rc)"
proof -
  have "worker L R lc (build_index R rc) s e =
      concat (map (\<lambda>l. map (merge_rows l) (filter (JOIN_ON lc rc l) R)) (map ((!) L) [s..<min e (length L)]))"
    by (simp add: worker_eq comp_def)
  then show ?thesis by (simp only: slice_map_nth INNER_JOIN_concat)
qed

text \<open>The slots of \<open>thread_results\<close> once every worker of a schedule has stored its result.\<close>

lemma fold_store_length: "length (fold (\<lambda>i res. res[i := f i]) sched res) = length res"
  by (induction sched arbitrary: res) auto

lemma fold_store_nth:
  "i < length res \<Longrightarrow>
   fold (\<lambda>i res. res[i := f i]) sched res ! i = (if i \<in> set sched then f i else res ! i)"
  by (induction sched arbitrary: res) (auto simp: nth_list_update)

lemma fold_store_schedule:
  assumes "is_schedule n sched"
  shows "fold (\<lambda>i res. res[i := f i]) sched (replicate n init) = map f [0..<n]"
proof (rule nth_equalityI)
  show "length (fold (\<lambda>i res. res[i := f i]) sched (replicate n init)) = length (map f [0..<n])"
    by (simp add: fold_store_length)
next
  fix i assume "i < length (fold (\<lambda>i res. res[i := f i]) sched (replicate n init))"
  then have i: "i < n" by (simp add: fold_store_length)
  from assms have "set sched = {0..<n}"
    unfolding is_schedule_def by (metis set_mset_mset set_upt)
  with i show "fold (\<lambda>i res. res[i := f i]) sched (replicate n init) ! i = map f [0..<n] ! i"
    by (simp add: fold_store_nth)
qed

lemma u64_id: "0 \<le> x \<Longrightarrow> x < 2 ^ 64 \<Longrightarrow> u64 x = nat x"
  by (simp add: u64_def)

lemma u64_pos: "0 < t \<Longrightarrow> t < 2 ^ 31 \<Longrightarrow> u64 t = nat t"
  by (rule u64_id) auto

lemma INNER_JOIN_append_left:
  "INNER_JOIN (xs @ ys) R p = INNER_JOIN xs R p @ INNER_JOIN ys R p"
  by (simp add: INNER_JOIN_concat)

lemma INNER_JOIN_concat_left:
  "INNER_JOIN (concat Ls) R p = concat (map (\<lambda>l. INNER_JOIN l R p) Ls)"
  by (induction Ls) (simp_all add: INNER_JOIN_append_left, simp add: INNER_JOIN_concat)

lemma chunk_eq: "chunk L t i = take (min (end_idx i (chunk_size (length L) t)) (length L) - start_idx i (chunk_size (length L) t)) (drop (start_idx i (chunk_size (length L) t)) L)"
  by (simp add: chunk_def chunk_range_def slice_map_nth)

lemma worker_chunk:
  "worker L R lc (build_index R rc) (start_idx i (chunk_size (length L) t)) (end_idx i (chunk_size (length L) t))
     = INNER_JOIN (chunk L t i) R (JOIN_ON lc rc)"
  by (simp add: worker_INNER_JOIN chunk_eq)

text \<open>Every execution with a positive thread count returns, whatever the sizes.\<close>

lemma INNER_JOIN_sched_chunks:
  assumes "0 < t" "t < 2 ^ 31" "is_schedule (nat t) sched"
  shows "INNER_JOIN_sched sched L R lc rc t =
           Inr (concat (map (\<lambda>i. INNER_JOIN (chunk L t i) R (JOIN_ON lc rc)) [0..<nat t]))"
proof -
  from assms have nz: "u64 t \<noteq> 0" by (simp add: u64_pos)
  from assms have nn: "\<not> t < 0" by simp
  show ?thesis
    unfolding INNER_JOIN_sched_def Let_def
    using nz nn by (simp add: fold_store_schedule [OF assms(3)] worker_chunk)
qed

lemma set_chunk_subset: "set (chunk L t i) \<subseteq> set L"
  by (auto simp: chunk_eq dest!: in_set_takeD in_set_dropD)

lemma set_INNER_JOIN: "set (INNER_JOIN L R p) = {merge_rows l r | l r. l \<in> set L \<and> r \<in> set R \<and> p l r}"
  by (auto simp: INNER_JOIN_concat)

lemma INNER_JOIN_sched_sound:
  assumes "0 < t" "t < 2 ^ 31" "is_schedule (nat t) sched"
  shows "\<exists>res. INNER_JOIN_sched sched L R lc rc t = Inr res \<and>
           set res \<subseteq> {merge_rows l r | l r. l \<in> set L \<and> r \<in> set R \<and> JOIN_ON lc rc l r}"
  using set_chunk_subset [of L t]
  by (fastforce simp: INNER_JOIN_sched_chunks [OF assms] set_INNER_JOIN)

text \<open>Within the sizes a vector can have, the index arithmetic does not wrap.\<close>

lemma chunk_size_nowrap:
  assumes "0 < t" "t < 2 ^ 31" "n < 2 ^ 63"
  shows "chunk_size n t = (n + nat t - 1) div nat t"
proof -
  have "u64 (int n + t - 1) = nat (int n + t - 1)"
    using assms by (intro u64_id) auto
  also have "\<dots> = n + nat t - 1" using assms by auto
  finally show ?thesis using assms by (simp add: chunk_size_def u64_pos)
qed

lemma ceil_div_bounds:
  assumes "0 < (t::nat)"
  shows "n \<le> t * ((n + t - 1) div t)" and "t * ((n + t - 1) div t) \<le> n + t - 1"
proof -
  have "(n + t - 1) mod t < t" using assms by simp
  moreover have "t * ((n + t - 1) div t) + (n + t - 1) mod t = n + t - 1" by simp
  ultimately show "n \<le> t * ((n + t - 1) div t)" by linarith
  show "t * ((n + t - 1) div t) \<le> n + t - 1" by simp
qed

lemma u64_of_nat: "n < 2 ^ 64 \<Longrightarrow> u64 (int n) = n"
proof -
  assume "n < 2 ^ 64"
  then have "int n < 2 ^ 64"
    by (metis of_nat_less_iff of_nat_numeral of_nat_power)
  then show ?thesis by (simp add: u64_def)
qed

lemma chunk_size_bounds:
  assumes "0 < t" "t < 2 ^ 31" "n < 2 ^ 63"
  shows "n \<le> nat t * chunk_size n t" and "nat t * chunk_size n t \<le> n + nat t - 1"
proof -
  have t: "0 < nat t" using assms by simp
  show "n \<le> nat t * chunk_size n t"
    unfolding chunk_size_nowrap [OF assms] by (rule ceil_div_bounds(1) [OF t])
  show "nat t * chunk_size n t \<le> n + nat t - 1"
    unfolding chunk_size_nowrap [OF assms] by (rule ceil_div_bounds(2) [OF t])
qed

lemma idx_nowrap:
  assumes "0 < t" "t < 2 ^ 31" "n < 2 ^ 63" "i < nat t"
  shows "start_idx i (chunk_size n t) = i * chunk_size n t"
    and "end_idx i (chunk_size n t) = i * chunk_size n t + chunk_size n t"
proof -
  define c where "c = chunk_size n t"
  have "Suc i * c \<le> nat t * c" using assms(4) by (intro mult_le_mono1) simp
  also have "\<dots> \<le> n + nat t - 1" unfolding c_def by (rule chunk_size_bounds(2) [OF assms(1-3)])
  also have "\<dots> < 2 ^ 64" using assms(1-3) by simp
  finally have b: "i * c + c < 2 ^ 64" by simp
  then have b0: "i * c < 2 ^ 64" by simp
  have "int i * int c = int (i * c)" by simp
  then have s: "start_idx i c = i * c"
    unfolding start_idx_def using u64_of_nat [OF b0] by simp
  have "int (i * c) + int c = int (i * c + c)" by simp
  then have e: "end_idx i c = i * c + c"
    unfolding end_idx_def s using u64_of_nat [OF b] by simp
  from s show "start_idx i (chunk_size n t) = i * chunk_size n t" by (simp add: c_def)
  from e show "end_idx i (chunk_size n t) = i * chunk_size n t + chunk_size n t"
    by (simp add: c_def)
qed

lemma chunk_nowrap:
  assumes "0 < t" "t < 2 ^ 31" "length L < 2 ^ 63" "i < nat t"
  shows "chunk L t i =
           take (chunk_size (length L) t) (drop (i * chunk_size (length L) t) L)"
proof -
  define c where "c = chunk_size (length L) t"
  have "chunk L t i = take (min (i * c + c) (length L) - i * c) (drop (i * c) L)"
    unfolding c_def chunk_eq idx_nowrap [OF assms] ..
  also have "\<dots> = take c (drop (i * c) L)"
    by (cases "i * c + c \<le> length L") (simp_all add: min_def)
  finally show ?thesis by (simp add: c_def)
qed

lemma concat_chunks_take:
  "concat (map (\<lambda>i. take c (drop (i * c) L)) [0..<t]) = take (t * c) L"
proof (induction t)
  case 0
  then show ?case by simp
next
  case (Suc t)
  have "take (t * c + c) L = take (t * c) L @ take c (drop (t * c) L)"
    by (rule take_add)
  moreover have "Suc t * c = t * c + c" by simp
  ultimately have "take (Suc t * c) L = take (t * c) L @ take c (drop (t * c) L)"
    by (simp only:)
  moreover have "concat (map (\<lambda>i. take c (drop (i * c) L)) [0..<Suc t])
       = concat (map (\<lambda>i. take c (drop (i * c) L)) [0..<t]) @ take c (drop (t * c) L)"
    by simp
  ultimately show ?case by (simp only: Suc)
qed

lemma concat_chunks:
  assumes "0 < t" "t < 2 ^ 31" "length L < 2 ^ 63"
  shows "concat (map (chunk L t) [0..<nat t]) = L"
proof -
  define c where "c = chunk_size (length L) t"
  have "map (chunk L t) [0..<nat t] = map (\<lambda>i. take c (drop (i * c) L)) [0..<nat t]"
    unfolding c_def using assms by (intro map_cong refl chunk_nowrap) auto
  then have "concat (map (chunk L t) [0..<nat t]) = take (nat t * c) L"
    by (simp only: concat_chunks_take)
  moreover have "length L \<le> nat t * c"
    unfolding c_def by (rule chunk_size_bounds(1) [OF assms])
  ultimately show ?thesis by simp
qed

lemma INNER_JOIN_sched_exact:
  assumes "0 < t" "t < 2 ^ 31" "length L < 2 ^ 63" "is_schedule (nat t) sched"
  shows "INNER_JOIN_sched sched L R lc rc t = Inr (INNER_JOIN L R (JOIN_ON lc rc))"
proof -
  have "concat (map (\<lambda>i. INNER_JOIN (chunk L t i) R (JOIN_ON lc rc)) [0..<nat t])
      = INNER_JOIN (concat (map (chunk L t) [0..<nat t])) R (JOIN_ON lc rc)"
    by (simp add: INNER_JOIN_concat_left comp_def)
  then show ?thesis
    using assms by (simp add: INNER_JOIN_sched_chunks concat_chunks)
qed

section \<open>The joins\<close>

lemma is_schedule_upt: "is_schedule n [0..<n]"
  by (simp add: is_schedule_def)

text \<open>
  Claim C8. Every join operator emits, for a matched pair of rows, the row \<open>merge_rows left_row right_row\<close>:
  the nested-loop inner, left and cross joins emit, for every left row in table order, its
  merge with every right row that matches it, and nothing else but the unmatched left rows of
  the left join. The concurrent hash join, whenever it returns, returns only merges of
  matched pairs; and with a positive thread count and a left table of a size a vector can
  have it returns exactly the rows of the nested-loop inner join on \<open>JOIN_ON lc rc\<close>, one
  merged row for every matched pair. The field set of the merged row is the union of the
  field sets of the two rows, and a field of the right row keeps the right row's value, also
  when the left row has a field of the same name.
\<close>

theorem join_merged_row_fields:
  assumes "wf_map right_row"
  shows "fst ` set (merge_rows left_row right_row) = fst ` set left_row \<union> fst ` set right_row
       \<and> (\<forall>k. map_of (merge_rows left_row right_row) k =
              (case map_of right_row k of Some v \<Rightarrow> Some v | None \<Rightarrow> map_of left_row k))
       \<and> INNER_JOIN L R p = concat (map (\<lambda>l. map (merge_rows l) (filter (p l) R)) L)
       \<and> LEFT_JOIN L R p =
           concat (map (\<lambda>l. if filter (p l) R = [] then [l]
                             else map (merge_rows l) (filter (p l) R)) L)
       \<and> CROSS_JOIN L R = concat (map (\<lambda>l. map (merge_rows l) R) L)
       \<and> (0 < t \<and> t < 2 ^ 31 \<and> is_schedule (nat t) sched \<longrightarrow>
            (\<exists>res. INNER_JOIN_sched sched L R lc rc t = Inr res \<and>
               (\<forall>x\<in>set res. \<exists>l\<in>set L. \<exists>r\<in>set R. JOIN_ON lc rc l r \<and> x = merge_rows l r)))
       \<and> (0 < t \<and> t < 2 ^ 31 \<and> length L < 2 ^ 63 \<and> is_schedule (nat t) sched \<longrightarrow>
            INNER_JOIN_sched sched L R lc rc t
              = Inr (concat (map (\<lambda>l. map (merge_rows l) (filter (JOIN_ON lc rc l) R)) L)))"
proof (intro conjI allI impI)
  show "fst ` set (merge_rows left_row right_row) = fst ` set left_row \<union> fst ` set right_row"
    by (rule keys_merge_rows)
  show "map_of (merge_rows left_row right_row) k =
          (case map_of right_row k of Some v \<Rightarrow> Some v | None \<Rightarrow> map_of left_row k)" for k
    using assms by (rule map_of_merge_rows_wf)
  show "INNER_JOIN L R p = concat (map (\<lambda>l. map (merge_rows l) (filter (p l) R)) L)"
    by (rule INNER_JOIN_concat)
  show "LEFT_JOIN L R p =
           concat (map (\<lambda>l. if filter (p l) R = [] then [l]
                             else map (merge_rows l) (filter (p l) R)) L)"
    by (rule LEFT_JOIN_concat)
  show "CROSS_JOIN L R = concat (map (\<lambda>l. map (merge_rows l) R) L)"
    by (rule CROSS_JOIN_concat)
next
  assume t: "0 < t \<and> t < 2 ^ 31 \<and> is_schedule (nat t) sched"
  then obtain res where "INNER_JOIN_sched sched L R lc rc t = Inr res"
    and "set res \<subseteq> {merge_rows l r | l r. l \<in> set L \<and> r \<in> set R \<and> JOIN_ON lc rc l r}"
    using INNER_JOIN_sched_sound [of t sched L R lc rc] by blast
  then show "\<exists>res. INNER_JOIN_sched sched L R lc rc t = Inr res \<and>
               (\<forall>x\<in>set res. \<exists>l\<in>set L. \<exists>r\<in>set R. JOIN_ON lc rc l r \<and> x = merge_rows l r)"
    by blast
next
  assume t: "0 < t \<and> t < 2 ^ 31 \<and> length L < 2 ^ 63 \<and> is_schedule (nat t) sched"
  then have "INNER_JOIN_sched sched L R lc rc t = Inr (INNER_JOIN L R (JOIN_ON lc rc))"
    by (intro INNER_JOIN_sched_exact) simp_all
  then show "INNER_JOIN_sched sched L R lc rc t
      = Inr (concat (map (\<lambda>l. map (merge_rows l) (filter (JOIN_ON lc rc l) R)) L))"
    by (simp only: INNER_JOIN_concat)
qed

text \<open>The theorem at a concrete input.\<close>

theorem join_merged_row_fields_witness:
  "wf_map wrowR1
   \<and> merge_rows wrow1 wrowR1 = [(''id'', ''9''), (''k'', ''a''), (''rk'', ''a'')]
   \<and> fst ` set (merge_rows wrow1 wrowR1) = fst ` set wrow1 \<union> fst ` set wrowR1
   \<and> map_of (merge_rows wrow1 wrowR1) ''id'' = Some ''9''
   \<and> INNER_JOIN [wrow1, wrow2] [wrowR1, wrowR2] (JOIN_ON ''k'' ''rk'')
       = [merge_rows wrow1 wrowR1, merge_rows wrow2 wrowR2]
   \<and> (0::int) < 2 \<and> (2::int) < 2 ^ 31 \<and> is_schedule (nat 2) [1, 0]
   \<and> length [wrow1, wrow2] < 2 ^ 63
   \<and> (\<exists>res. INNER_JOIN_sched [1, 0] [wrow1, wrow2] [wrowR1, wrowR2] ''k'' ''rk'' 2 = Inr res \<and>
         (\<forall>x\<in>set res. \<exists>l\<in>set [wrow1, wrow2]. \<exists>r\<in>set [wrowR1, wrowR2].
             JOIN_ON ''k'' ''rk'' l r \<and> x = merge_rows l r))
   \<and> INNER_JOIN_sched [1, 0] [wrow1, wrow2] [wrowR1, wrowR2] ''k'' ''rk'' 2
       = Inr [merge_rows wrow1 wrowR1, merge_rows wrow2 wrowR2]
   \<and> INNER_JOIN_sched [1, 0] [wrow1, wrow2] [wrowR1, wrowR2] ''k'' ''rk'' 2
       = Inr [[(''id'', ''9''), (''k'', ''a''), (''rk'', ''a'')],
              [(''id'', ''2''), (''k'', ''b''), (''rk'', ''b''), (''z'', ''7'')]]"
proof -
  have wf: "wf_map wrowR1" by (simp add: wf_map_def wrowR1_def)
  have len: "length [wrow1, wrow2] < 2 ^ 63" by simp
  have m2: "merge_rows wrow2 wrowR2 = [(''id'', ''2''), (''k'', ''b''), (''rk'', ''b''), (''z'', ''7'')]"
    by (simp add: merge_rows_def wrow2_def wrowR2_def)
  have sch: "is_schedule (nat 2) [1, 0]"
    by (simp add: is_schedule_def upt_rec numeral_2_eq_2)
  have m: "merge_rows wrow1 wrowR1 = [(''id'', ''9''), (''k'', ''a''), (''rk'', ''a'')]"
    by (simp add: merge_rows_def wrow1_def wrowR1_def)
  have f: "filter (JOIN_ON ''k'' ''rk'' wrow1) [wrowR1, wrowR2] = [wrowR1]"
          "filter (JOIN_ON ''k'' ''rk'' wrow2) [wrowR1, wrowR2] = [wrowR2]"
    by (simp_all add: JOIN_ON_def wrow1_def wrow2_def wrowR1_def wrowR2_def)
  note inst = join_merged_row_fields [OF wf, of wrow1 "[wrow1, wrow2]" "[wrowR1, wrowR2]"
      "JOIN_ON ''k'' ''rk''" 2 "[1, 0]" "''k''" "''rk''"]
  note c2 = conjunct2
  from inst have keys: "fst ` set (merge_rows wrow1 wrowR1) = fst ` set wrow1 \<union> fst ` set wrowR1"
    by (rule conjunct1)
  from inst [THEN c2, THEN conjunct1, rule_format, of "''id''"]
  have look: "map_of (merge_rows wrow1 wrowR1) ''id'' = Some ''9''"
    by (simp add: wrowR1_def)
  from inst [THEN c2, THEN c2, THEN conjunct1]
  have ij: "INNER_JOIN [wrow1, wrow2] [wrowR1, wrowR2] (JOIN_ON ''k'' ''rk'')
       = [merge_rows wrow1 wrowR1, merge_rows wrow2 wrowR2]"
    by (simp only: f list.map concat.simps append.simps)
  from inst [THEN c2, THEN c2, THEN c2, THEN c2, THEN c2, THEN conjunct1] sch
  have hj: "\<exists>res. INNER_JOIN_sched [1, 0] [wrow1, wrow2] [wrowR1, wrowR2] ''k'' ''rk'' 2 = Inr res \<and>
         (\<forall>x\<in>set res. \<exists>l\<in>set [wrow1, wrow2]. \<exists>r\<in>set [wrowR1, wrowR2].
             JOIN_ON ''k'' ''rk'' l r \<and> x = merge_rows l r)"
    by simp
  have "INNER_JOIN_sched [1, 0] [wrow1, wrow2] [wrowR1, wrowR2] ''k'' ''rk'' 2
       = Inr (concat (map (\<lambda>l. map (merge_rows l) (filter (JOIN_ON ''k'' ''rk'' l) [wrowR1, wrowR2]))
                [wrow1, wrow2]))"
    using inst [THEN c2, THEN c2, THEN c2, THEN c2, THEN c2, THEN c2] sch len by simp
  then have ex: "INNER_JOIN_sched [1, 0] [wrow1, wrow2] [wrowR1, wrowR2] ''k'' ''rk'' 2
       = Inr [merge_rows wrow1 wrowR1, merge_rows wrow2 wrowR2]"
    by (simp only: f list.map concat.simps append.simps)
  then have ex2: "INNER_JOIN_sched [1, 0] [wrow1, wrow2] [wrowR1, wrowR2] ''k'' ''rk'' 2
       = Inr [[(''id'', ''9''), (''k'', ''a''), (''rk'', ''a'')],
              [(''id'', ''2''), (''k'', ''b''), (''rk'', ''b''), (''z'', ''7'')]]"
    by (simp only: m m2)
  from wf m keys look ij sch len hj ex ex2 show ?thesis by (intro conjI) simp_all
qed

text \<open>
  Claim C1, amended. With a positive thread count (an \<open>int\<close>) and a left table of a size a vector can
  have, every execution of the concurrent hash join returns, and returns the same multiset
  of merged rows as the nested-loop join on \<open>JOIN_ON lc rc\<close>; two executions that differ
  in the order in which the workers finish return the same table, in the same order.
\<close>

theorem hash_join_refines_nested_loop:
  assumes "0 < t" and "t < 2 ^ 31" and "length L < 2 ^ 63"
    and "is_schedule (nat t) sched" and "is_schedule (nat t) sched'"
  shows "\<exists>res. INNER_JOIN_sched sched L R lc rc t = Inr res
            \<and> mset res = mset (INNER_JOIN L R (JOIN_ON lc rc))
            \<and> INNER_JOIN_sched sched' L R lc rc t = Inr res"
  using INNER_JOIN_sched_exact [OF assms(1-4)] INNER_JOIN_sched_exact [OF assms(1-3,5)]
  by simp

text \<open>The theorem at a concrete input.\<close>

theorem hash_join_refines_nested_loop_witness:
  "(0::int) < 2 \<and> (2::int) < 2 ^ 31 \<and> length [wrow1, wrow2, wrow3] < 2 ^ 63
   \<and> is_schedule (nat 2) [0, 1] \<and> is_schedule (nat 2) [1, 0]
   \<and> (\<exists>res. INNER_JOIN_sched [0, 1] [wrow1, wrow2, wrow3] [wrowR1, wrowR2] ''k'' ''rk'' 2 = Inr res
          \<and> mset res = mset (INNER_JOIN [wrow1, wrow2, wrow3] [wrowR1, wrowR2] (JOIN_ON ''k'' ''rk''))
          \<and> INNER_JOIN_sched [1, 0] [wrow1, wrow2, wrow3] [wrowR1, wrowR2] ''k'' ''rk'' 2 = Inr res)
   \<and> INNER_JOIN_sched [1, 0] [wrow1, wrow2, wrow3] [wrowR1, wrowR2] ''k'' ''rk'' 2
       = Inr [[(''id'', ''9''), (''k'', ''a''), (''rk'', ''a'')],
              [(''id'', ''2''), (''k'', ''b''), (''rk'', ''b''), (''z'', ''7'')],
              [(''id'', ''9''), (''k'', ''a''), (''rk'', ''a'')]]"
proof -
  have t: "(0::int) < 2" "(2::int) < 2 ^ 31" by simp_all
  have n: "length [wrow1, wrow2, wrow3] < 2 ^ 63" by simp
  have ev: "INNER_JOIN_sched [1, 0] [wrow1, wrow2, wrow3] [wrowR1, wrowR2] ''k'' ''rk'' 2
       = Inr [[(''id'', ''9''), (''k'', ''a''), (''rk'', ''a'')],
              [(''id'', ''2''), (''k'', ''b''), (''rk'', ''b''), (''z'', ''7'')],
              [(''id'', ''9''), (''k'', ''a''), (''rk'', ''a'')]]"
    by code_simp
  have s1: "is_schedule (nat 2) [0, 1]" by (simp add: is_schedule_def upt_rec numeral_2_eq_2)
  have s2: "is_schedule (nat 2) [1, 0]" by (simp add: is_schedule_def upt_rec numeral_2_eq_2)
  from t n s1 s2
    hash_join_refines_nested_loop [OF t n s1 s2, of "[wrowR1, wrowR2]" "''k''" "''rk''"] ev
  show ?thesis by (intro conjI)
qed

text \<open>
  C1 as stated lets the thread count be \<open>|L|\<close> for every \<open>L\<close>. For the empty left table
  that is zero threads: the nested-loop join returns the empty table, the hash join divides
  by zero when it computes the chunk size.
\<close>

theorem hash_join_zero_threads_counterexample:
  "INNER_JOIN [] [wrowR1] (JOIN_ON ''k'' ''rk'') = []
   \<and> INNER_JOIN_sched [] [] [wrowR1] ''k'' ''rk'' (int (length ([] :: table))) = Inl DivisionByZero"
  by (simp add: INNER_JOIN_def INNER_JOIN_sched_def u64_def)

text \<open>
  Claim C2, amended. With a positive thread count the left table is cut into \<open>num_threads\<close> contiguous
  chunks: chunk \<open>i\<close> is the rows from index \<open>i * c\<close> on, at most \<open>c\<close> of them, where
  \<open>c\<close> is \<open>|left|\<close> divided by \<open>num_threads\<close> and rounded up, and the chunks in index order
  make up the left table. The output is the concatenation, in chunk order, of the matches of
  each chunk; within a chunk the left rows keep their order, and the matches of one left row
  come in ascending right-table index.
\<close>

theorem hash_join_output_order:
  assumes "0 < t" and "t < 2 ^ 31" and "length L < 2 ^ 63" and "is_schedule (nat t) sched"
  shows "chunk_size (length L) t = (length L + nat t - 1) div nat t
       \<and> (\<forall>i<nat t. chunk L t i =
             take (chunk_size (length L) t) (drop (i * chunk_size (length L) t) L))
       \<and> concat (map (chunk L t) [0..<nat t]) = L
       \<and> INNER_JOIN_sched sched L R lc rc t =
           Inr (concat (map (\<lambda>i.
                  concat (map (\<lambda>l. map (\<lambda>j. merge_rows l (R ! j))
                                     (filter (\<lambda>j. JOIN_ON lc rc l (R ! j)) [0..<length R]))
                            (chunk L t i)))
                [0..<nat t]))"
proof (intro conjI allI impI)
  show "chunk_size (length L) t = (length L + nat t - 1) div nat t"
    using assms(1-3) by (rule chunk_size_nowrap)
  show "chunk L t i = take (chunk_size (length L) t) (drop (i * chunk_size (length L) t) L)"
    if "i < nat t" for i
    using assms(1-3) that by (rule chunk_nowrap)
  show "concat (map (chunk L t) [0..<nat t]) = L"
    using assms(1-3) by (rule concat_chunks)
  have "INNER_JOIN ls R (JOIN_ON lc rc) =
      concat (map (\<lambda>l. map (\<lambda>j. merge_rows l (R ! j))
                       (filter (\<lambda>j. JOIN_ON lc rc l (R ! j)) [0..<length R])) ls)" for ls
    unfolding INNER_JOIN_concat
    by (subst filter_by_index) (simp add: comp_def)
  then show "INNER_JOIN_sched sched L R lc rc t =
           Inr (concat (map (\<lambda>i.
                  concat (map (\<lambda>l. map (\<lambda>j. merge_rows l (R ! j))
                                     (filter (\<lambda>j. JOIN_ON lc rc l (R ! j)) [0..<length R]))
                            (chunk L t i)))
                [0..<nat t]))"
    using INNER_JOIN_sched_chunks [OF assms(1,2,4), of L R lc rc] by simp
qed

text \<open>
  C2 as stated gives every chunk but the last \<open>ceil(|left| / num_threads)\<close> rows, and lets
  the last one be short or empty when there are more threads than rows. With five rows and
  four threads the chunk size is two: the third chunk has one row and the fourth is empty.
\<close>

theorem hash_join_chunks_counterexample:
  "(4::int) \<le> int (length wtable5)
   \<and> chunk_size (length wtable5) 4 = 2
   \<and> chunk wtable5 4 0 = [[(''k'', ''0'')], [(''k'', ''1'')]]
   \<and> chunk wtable5 4 1 = [[(''k'', ''2'')], [(''k'', ''3'')]]
   \<and> chunk wtable5 4 2 = [[(''k'', ''4'')]]
   \<and> chunk wtable5 4 3 = []"
  by code_simp

text \<open>The theorem at a concrete input.\<close>

theorem hash_join_output_order_witness:
  "(0::int) < 4 \<and> (4::int) < 2 ^ 31 \<and> length wtable5 < 2 ^ 63 \<and> is_schedule (nat 4) [2, 0, 3, 1]
   \<and> chunk_size (length wtable5) 4 = (length wtable5 + nat 4 - 1) div nat 4
   \<and> concat (map (chunk wtable5 4) [0..<nat 4]) = wtable5
   \<and> INNER_JOIN_sched [2, 0, 3, 1] wtable5 [[(''k'', ''4''), (''v'', ''x'')], [(''k'', ''0'')], [(''k'', ''4''), (''v'', ''y'')]] ''k'' ''k'' 4
       = Inr (concat (map (\<lambda>i.
                  concat (map (\<lambda>l. map (\<lambda>j. merge_rows l ([[(''k'', ''4''), (''v'', ''x'')], [(''k'', ''0'')], [(''k'', ''4''), (''v'', ''y'')]] ! j))
                                     (filter (\<lambda>j. JOIN_ON ''k'' ''k'' l ([[(''k'', ''4''), (''v'', ''x'')], [(''k'', ''0'')], [(''k'', ''4''), (''v'', ''y'')]] ! j)) [0..<length [[(''k'', ''4''), (''v'', ''x'')], [(''k'', ''0'')], [(''k'', ''4''), (''v'', ''y'')]]]))
                            (chunk wtable5 4 i)))
                [0..<nat 4]))
   \<and> INNER_JOIN_sched [2, 0, 3, 1] wtable5 [[(''k'', ''4''), (''v'', ''x'')], [(''k'', ''0'')], [(''k'', ''4''), (''v'', ''y'')]] ''k'' ''k'' 4
       = Inr [[(''k'', ''0'')], [(''k'', ''4''), (''v'', ''x'')], [(''k'', ''4''), (''v'', ''y'')]]"
proof -
  let ?R = "[[(''k'', ''4''), (''v'', ''x'')], [(''k'', ''0'')], [(''k'', ''4''), (''v'', ''y'')]]"
  have t: "(0::int) < 4" "(4::int) < 2 ^ 31" by simp_all
  have n: "length wtable5 < 2 ^ 63" by (simp add: wtable5_def)
  have s: "is_schedule (nat 4) [2, 0, 3, 1]" by code_simp
  note inst = hash_join_output_order [OF t n s, of ?R "''k''" "''k''"]
  note c2 = conjunct2
  have res: "INNER_JOIN_sched [2, 0, 3, 1] wtable5 ?R ''k'' ''k'' 4
       = Inr [[(''k'', ''0'')], [(''k'', ''4''), (''v'', ''x'')], [(''k'', ''4''), (''v'', ''y'')]]"
    by code_simp
  from t n s inst [THEN conjunct1] inst [THEN c2, THEN c2, THEN conjunct1]
    inst [THEN c2, THEN c2, THEN c2] res
  show ?thesis by (intro conjI)
qed

section \<open>LIMIT with OFFSET: pages\<close>

lemma LIMIT_OFFSET_beyond: "length T \<le> unat off \<Longrightarrow> LIMIT_OFFSET T n off = Inr []"
  by (simp add: LIMIT_OFFSET_def)

lemma LIMIT_OFFSET_page:
  assumes "length T < 2 ^ 63" and "unat off \<le> length T" and "unat off = 0 \<or> unat n \<le> unat off"
  shows "LIMIT_OFFSET T n off = Inr (take (unat n) (drop (unat off) T))"
proof (cases "length T \<le> unat off")
  case True
  then show ?thesis by (simp add: LIMIT_OFFSET_def)
next
  case False
  have off63: "unat off < 2 ^ 63" using assms(1,2) by simp
  have "unat off + unat n < 2 ^ 64"
  proof (cases "unat off = 0")
    case True
    have "unat n < 2 ^ 64" using unsigned_less [of n, where 'a = nat] by simp
    with True show ?thesis by simp
  next
    case False
    with assms(3) have "unat off + unat n \<le> unat off + unat off" by simp
    also have "\<dots> < 2 ^ 64" using off63 by simp
    finally show ?thesis .
  qed
  then have ue: "unat (off + n) = unat off + unat n"
    using unat_add_lem [of off n] by simp
  show ?thesis
    using False by (simp add: LIMIT_OFFSET_def ue Let_def min_def)
qed

lemma unat_page_offset:
  assumes "length T < 2 ^ 63" and "k * unat n \<le> length T"
  shows "unat (of_nat (k * unat n) :: 64 word) = k * unat n"
proof -
  have "k * unat n < 2 ^ 63" using assms by simp
  then have "k * unat n < 2 ^ 64" by (rule less_trans) simp
  then show ?thesis by (intro of_nat_inverse [OF refl]) simp
qed

lemma LIMIT_OFFSET_kth_page:
  assumes "length T < 2 ^ 63" and "k * unat n \<le> length T"
  shows "LIMIT_OFFSET T n (of_nat (k * unat n)) = Inr (take (unat n) (drop (k * unat n) T))"
proof -
  define off :: "64 word" where "off = of_nat (k * unat n)"
  have uo: "unat off = k * unat n" unfolding off_def using assms by (rule unat_page_offset)
  have "unat off = 0 \<or> unat n \<le> unat off" unfolding uo by (cases k) simp_all
  with assms have "LIMIT_OFFSET T n off = Inr (take (unat n) (drop (unat off) T))"
    by (intro LIMIT_OFFSET_page) (simp_all add: uo)
  then show ?thesis by (simp only: uo) (simp only: off_def)
qed

lemma concat_pages_take:
  "concat (map (\<lambda>i. take c (drop (i * c) L)) [0..<t]) = take (t * c) L"
proof (induction t)
  case 0
  then show ?case by simp
next
  case (Suc t)
  have "take (t * c + c) L = take (t * c) L @ take c (drop (t * c) L)"
    by (rule take_add)
  moreover have "Suc t * c = t * c + c" by simp
  ultimately have "take (Suc t * c) L = take (t * c) L @ take c (drop (t * c) L)"
    by (simp only:)
  moreover have "concat (map (\<lambda>i. take c (drop (i * c) L)) [0..<Suc t])
       = concat (map (\<lambda>i. take c (drop (i * c) L)) [0..<t]) @ take c (drop (t * c) L)"
    by simp
  ultimately show ?case by (simp only: Suc)
qed

text \<open>
  Claim C9. For a table \<open>T\<close> of a size a vector can have and a page size \<open>n > 0\<close>, the
  pages \<open>LIMIT_OFFSET T n 0\<close>, \<open>LIMIT_OFFSET T n n\<close>, \<open>LIMIT_OFFSET T n 2n\<close>, \<dots> at
  all offsets up to \<open>|T|\<close> all succeed, page \<open>k\<close> is the rows from \<open>k * n\<close> on, at most
  \<open>n\<close> of them, and the pages concatenated in this order are \<open>T\<close>. A page whose offset is
  at or beyond \<open>|T|\<close> is the empty table, not an error.
\<close>

theorem limit_offset_pages_reconstruct:
  assumes "n \<noteq> 0" and "length T < 2 ^ 63"
  shows "map (\<lambda>k. LIMIT_OFFSET T n (of_nat (k * unat n))) [0..<Suc (length T div unat n)]
           = map (\<lambda>k. Inr (take (unat n) (drop (k * unat n) T))) [0..<Suc (length T div unat n)]
       \<and> concat (map (\<lambda>k. take (unat n) (drop (k * unat n) T)) [0..<Suc (length T div unat n)]) = T
       \<and> (\<forall>off. length T \<le> unat off \<longrightarrow> LIMIT_OFFSET T n off = Inr [])"
proof (intro conjI allI impI)
  have n: "0 < unat n" using assms(1) by (simp add: unat_gt_0)
  show "map (\<lambda>k. LIMIT_OFFSET T n (of_nat (k * unat n))) [0..<Suc (length T div unat n)]
           = map (\<lambda>k. Inr (take (unat n) (drop (k * unat n) T))) [0..<Suc (length T div unat n)]"
  proof (rule map_cong [OF refl])
    fix k assume "k \<in> set [0..<Suc (length T div unat n)]"
    then have "k \<le> length T div unat n" by auto
    then have "k * unat n \<le> (length T div unat n) * unat n" by (rule mult_le_mono1)
    also have "\<dots> \<le> length T" by simp
    finally show "LIMIT_OFFSET T n (of_nat (k * unat n)) = Inr (take (unat n) (drop (k * unat n) T))"
      using assms(2) by (intro LIMIT_OFFSET_kth_page)
  qed
  have "length T < Suc (length T div unat n) * unat n"
    using dividend_less_div_times [OF n, of "length T"] by (simp add: mult.commute)
  then show "concat (map (\<lambda>k. take (unat n) (drop (k * unat n) T)) [0..<Suc (length T div unat n)]) = T"
    by (simp only: concat_pages_take) simp
  show "LIMIT_OFFSET T n off = Inr []" if "length T \<le> unat off" for off
    using that by (rule LIMIT_OFFSET_beyond)
qed

text \<open>The theorem at a table of five rows and pages of two.\<close>

theorem limit_offset_pages_reconstruct_witness:
  "(2 :: 64 word) \<noteq> 0 \<and> length wtable5 < 2 ^ 63
   \<and> map (\<lambda>k. LIMIT_OFFSET wtable5 2 (of_nat (k * unat (2 :: 64 word)))) [0..<Suc (length wtable5 div unat (2 :: 64 word))]
       = [Inr [[(''k'', ''0'')], [(''k'', ''1'')]], Inr [[(''k'', ''2'')], [(''k'', ''3'')]], Inr [[(''k'', ''4'')]]]
   \<and> concat (map (\<lambda>k. take (unat (2 :: 64 word)) (drop (k * unat (2 :: 64 word)) wtable5)) [0..<Suc (length wtable5 div unat (2 :: 64 word))]) = wtable5
   \<and> LIMIT_OFFSET wtable5 2 6 = Inr []"
proof -
  have n: "(2 :: 64 word) \<noteq> 0" by simp
  have l: "length wtable5 < 2 ^ 63" by (simp add: wtable5_def)
  note inst = limit_offset_pages_reconstruct [OF n l]
  have pages: "map (\<lambda>k. Inr (take (unat (2 :: 64 word)) (drop (k * unat (2 :: 64 word)) wtable5))) [0..<Suc (length wtable5 div unat (2 :: 64 word))]
       = ([Inr [[(''k'', ''0'')], [(''k'', ''1'')]], Inr [[(''k'', ''2'')], [(''k'', ''3'')]], Inr [[(''k'', ''4'')]]] :: (error + table) list)"
    by code_simp
  have six: "length wtable5 \<le> unat (6 :: 64 word)" by code_simp
  from n l inst [THEN conjunct1, unfolded pages] inst [THEN conjunct2, THEN conjunct1]
    inst [THEN conjunct2, THEN conjunct2, rule_format, OF six]
  show ?thesis by (intro conjI)
qed

section \<open>GROUP BY: the groups\<close>

lemma wf_GROUP_BY: "wf_map (GROUP_BY tbl c)"
  unfolding GROUP_BY_def
  using fold_push_back_wf [where m = "[]" and kf = "\<lambda>r. map_of r c" and vf = "\<lambda>r. r" and xs = tbl]
  by (simp add: wf_map_def)

lemma GROUP_BY_lookup:
  "map_of (GROUP_BY tbl c) k =
     (if filter (\<lambda>r. map_of r c = Some k) tbl = [] then None
      else Some (filter (\<lambda>r. map_of r c = Some k) tbl))"
  unfolding GROUP_BY_def
  using fold_push_back_lookup [where m = "[]" and kf = "\<lambda>r. map_of r c" and vf = "\<lambda>r. r"
      and xs = tbl and k = k]
  by (simp add: wf_map_def)

lemma GROUP_BY_entry:
  "(k, g) \<in> set (GROUP_BY tbl c) \<longleftrightarrow> g \<noteq> [] \<and> g = filter (\<lambda>r. map_of r c = Some k) tbl"
proof -
  have "(k, g) \<in> set (GROUP_BY tbl c) \<longleftrightarrow> map_of (GROUP_BY tbl c) k = Some g"
    using wf_map_distinct [OF wf_GROUP_BY] by simp
  then show ?thesis by (auto simp: GROUP_BY_lookup split: if_splits)
qed

text \<open>
  Claim C10. The groups \<open>GROUP_BY\<close> returns have distinct keys; every group is non-empty
  and is exactly the rows of the table, in table order, whose group column is present and
  equal to the group's key. So two different groups share no row, and the union of the
  groups is the set of rows of the table that have the group column.
\<close>

theorem group_by_partition:
  "wf_map (GROUP_BY tbl c)
   \<and> (\<forall>(k, g) \<in> set (GROUP_BY tbl c).
         g \<noteq> [] \<and> g = filter (\<lambda>r. map_of r c = Some k) tbl \<and> (\<forall>r\<in>set g. map_of r c = Some k))
   \<and> (\<forall>(k, g) \<in> set (GROUP_BY tbl c). \<forall>(k', g') \<in> set (GROUP_BY tbl c).
         (k, g) \<noteq> (k', g') \<longrightarrow> set g \<inter> set g' = {})
   \<and> (\<Union>(k, g) \<in> set (GROUP_BY tbl c). set g) = {r \<in> set tbl. map_of r c \<noteq> None}"
proof (intro conjI)
  show "wf_map (GROUP_BY tbl c)" by (rule wf_GROUP_BY)
  show "\<forall>(k, g) \<in> set (GROUP_BY tbl c).
         g \<noteq> [] \<and> g = filter (\<lambda>r. map_of r c = Some k) tbl \<and> (\<forall>r\<in>set g. map_of r c = Some k)"
    by (auto simp: GROUP_BY_entry)
  show "\<forall>(k, g) \<in> set (GROUP_BY tbl c). \<forall>(k', g') \<in> set (GROUP_BY tbl c).
         (k, g) \<noteq> (k', g') \<longrightarrow> set g \<inter> set g' = {}"
    by (auto simp: GROUP_BY_entry)
  show "(\<Union>(k, g) \<in> set (GROUP_BY tbl c). set g) = {r \<in> set tbl. map_of r c \<noteq> None}"
  proof (intro set_eqI iffI)
    fix r assume "r \<in> (\<Union>(k, g) \<in> set (GROUP_BY tbl c). set g)"
    then show "r \<in> {r \<in> set tbl. map_of r c \<noteq> None}"
      by (auto simp: GROUP_BY_entry)
  next
    fix r assume "r \<in> {r \<in> set tbl. map_of r c \<noteq> None}"
    then obtain k where r: "r \<in> set tbl" "map_of r c = Some k" by auto
    let ?g = "filter (\<lambda>r. map_of r c = Some k) tbl"
    from r have "r \<in> set ?g" by simp
    moreover from this have "?g \<noteq> []" by (metis empty_iff empty_set)
    then have "(k, ?g) \<in> set (GROUP_BY tbl c)"
      unfolding GROUP_BY_entry by simp
    ultimately show "r \<in> (\<Union>(k, g) \<in> set (GROUP_BY tbl c). set g)" by blast
  qed
qed

text \<open>The theorem on a table with two groups and one row that lacks the column.\<close>

theorem group_by_partition_witness:
  "GROUP_BY [wrow1, wrow2, wrowR1, wrow3] ''k'' = [(''a'', [wrow1, wrow3]), (''b'', [wrow2])]
   \<and> wf_map (GROUP_BY [wrow1, wrow2, wrowR1, wrow3] ''k'')
   \<and> [wrow1, wrow3] \<noteq> []
   \<and> [wrow1, wrow3] = filter (\<lambda>r. map_of r ''k'' = Some ''a'') [wrow1, wrow2, wrowR1, wrow3]
   \<and> map_of wrow1 ''k'' = Some ''a'' \<and> map_of wrow3 ''k'' = Some ''a''
   \<and> set [wrow1, wrow3] \<inter> set [wrow2] = {}
   \<and> (\<Union>(k, g) \<in> set (GROUP_BY [wrow1, wrow2, wrowR1, wrow3] ''k''). set g)
       = {r \<in> set [wrow1, wrow2, wrowR1, wrow3]. map_of r ''k'' \<noteq> None}"
proof -
  let ?T = "[wrow1, wrow2, wrowR1, wrow3]"
  have ev: "GROUP_BY ?T ''k'' = [(''a'', [wrow1, wrow3]), (''b'', [wrow2])]"
    by code_simp
  have a: "(''a'', [wrow1, wrow3]) \<in> set (GROUP_BY ?T ''k'')"
    and b: "(''b'', [wrow2]) \<in> set (GROUP_BY ?T ''k'')"
    by (simp_all add: ev)
  have ne: "(''a'', [wrow1, wrow3]) \<noteq> (''b'', [wrow2])" by simp
  note inst = group_by_partition [of ?T "''k''"]
  note c2 = conjunct2
  from inst [THEN c2, THEN conjunct1, rule_format, OF a]
  have g: "[wrow1, wrow3] \<noteq> []"
       "[wrow1, wrow3] = filter (\<lambda>r. map_of r ''k'' = Some ''a'') ?T"
       "map_of wrow1 ''k'' = Some ''a''" "map_of wrow3 ''k'' = Some ''a''"
    by simp_all
  from bspec [OF bspec [OF inst [THEN c2, THEN c2, THEN conjunct1] a, unfolded split_conv] b,
      unfolded split_conv, rule_format, OF ne]
  have d: "set [wrow1, wrow3] \<inter> set [wrow2] = {}" .
  from ev inst [THEN conjunct1] g d inst [THEN c2, THEN c2, THEN c2]
  show ?thesis by (intro conjI)
qed

section \<open>The aggregates\<close>

text \<open>The loops of the aggregates, from any accumulator.\<close>

lemma agg_loop_error:
  "fold (\<lambda>r acc. case acc of Inl e \<Rightarrow> Inl e | Inr a \<Rightarrow> step r a) grp (Inl e) = Inl e"
  by (induction grp) auto

lemma agg_loop:
  "fold (\<lambda>r acc.
      case acc of
        Inl e \<Rightarrow> Inl e
      | Inr a \<Rightarrow>
         (case map_of r c of
            None \<Rightarrow> Inr a
          | Some s \<Rightarrow> (case stod F s of None \<Rightarrow> Inl StodFailure | Some v \<Rightarrow> Inr (f a v))))
     grp (Inr a)
   = (if \<forall>s\<in>set (List.map_filter (\<lambda>r. map_of r c) grp). stod F s \<noteq> None
      then Inr (foldl f a (map (\<lambda>s. the (stod F s)) (List.map_filter (\<lambda>r. map_of r c) grp)))
      else Inl StodFailure)"
proof (induction grp arbitrary: a)
  case Nil
  then show ?case by simp
next
  case (Cons r grp)
  show ?case
  proof (cases "map_of r c")
    case None
    then show ?thesis using Cons.IH [of a] by simp
  next
    case (Some s)
    show ?thesis
    proof (cases "stod F s")
      case None
      then show ?thesis using Some by (simp add: agg_loop_error)
    next
      case (Some v)
      then show ?thesis using \<open>map_of r c = Some s\<close> Cons.IH [of "f a v"]
        by simp
    qed
  qed
qed

lemma map_filter_present:
  "List.map_filter (\<lambda>r. map_of r c) (filter (\<lambda>r. map_of r c \<noteq> None) grp)
     = List.map_filter (\<lambda>r. map_of r c) grp"
  by (induction grp) auto

lemma SUM_agg_eq:
  "SUM_agg F grp c =
     (if \<forall>s\<in>set (List.map_filter (\<lambda>r. map_of r c) grp). stod F s \<noteq> None
      then Inr (foldl (fadd F) (fzero F)
                  (map (\<lambda>s. the (stod F s)) (List.map_filter (\<lambda>r. map_of r c) grp)))
      else Inl StodFailure)"
  unfolding SUM_agg_def by (rule agg_loop)

text \<open>
  Claim C6, amended. \<open>SUM\<close> looks at the rows that have the column, in order: if
  \<open>std::stod\<close> accepts the field of every one of them, the result is the values it reads,
  added one by one to \<open>0.0\<close>; if \<open>std::stod\<close> rejects the field of any of them, \<open>SUM\<close>
  fails with the exception of \<open>std::stod\<close>, it does not count the field as zero. Rows
  without the column neither fail nor change the sum: the sum is that of the table without
  them. What \<open>std::stod\<close> rejects is a matter of the library, not of \<open>SUM\<close>: the theorem
  holds for every \<open>stod\<close>.
\<close>

theorem sum_skips_absent_fails_on_text:
  "SUM_agg F grp c =
     (if \<forall>s\<in>set (List.map_filter (\<lambda>r. map_of r c) grp). stod F s \<noteq> None
      then Inr (foldl (fadd F) (fzero F)
                  (map (\<lambda>s. the (stod F s)) (List.map_filter (\<lambda>r. map_of r c) grp)))
      else Inl StodFailure)
   \<and> SUM_agg F grp c = SUM_agg F (filter (\<lambda>r. map_of r c \<noteq> None) grp) c"
  by (simp only: SUM_agg_eq map_filter_present simp_thms)

text \<open>The theorem on a group with an absent field, and on one with a field that is not a number.\<close>

theorem sum_skips_absent_fails_on_text_witness:
  "SUM_agg fp_ex [[(''v'', ''1.5'')], [(''w'', ''x'')], [(''v'', ''2'')]] ''v'' = Inr (7 / 2)
   \<and> SUM_agg fp_ex [[(''v'', ''1.5'')], [(''v'', ''abc'')], [(''v'', ''2'')]] ''v'' = Inl StodFailure
   \<and> SUM_agg fp_ex [[(''v'', ''1.5'')], [(''w'', ''x'')], [(''v'', ''2'')]] ''v'' =
       (if \<forall>s\<in>set (List.map_filter (\<lambda>r. map_of r ''v'')
                       [[(''v'', ''1.5'')], [(''w'', ''x'')], [(''v'', ''2'')]]). stod fp_ex s \<noteq> None
        then Inr (foldl (fadd fp_ex) (fzero fp_ex)
                    (map (\<lambda>s. the (stod fp_ex s))
                       (List.map_filter (\<lambda>r. map_of r ''v'')
                          [[(''v'', ''1.5'')], [(''w'', ''x'')], [(''v'', ''2'')]])))
        else Inl StodFailure)
   \<and> SUM_agg fp_ex [[(''v'', ''1.5'')], [(''w'', ''x'')], [(''v'', ''2'')]] ''v''
       = SUM_agg fp_ex (filter (\<lambda>r. map_of r ''v'' \<noteq> None)
           [[(''v'', ''1.5'')], [(''w'', ''x'')], [(''v'', ''2'')]]) ''v''"
proof -
  have a: "SUM_agg fp_ex [[(''v'', ''1.5'')], [(''w'', ''x'')], [(''v'', ''2'')]] ''v'' = Inr (7 / 2)"
    by code_simp
  have b: "SUM_agg fp_ex [[(''v'', ''1.5'')], [(''v'', ''abc'')], [(''v'', ''2'')]] ''v'' = Inl StodFailure"
    by code_simp
  note inst = sum_skips_absent_fails_on_text
      [of fp_ex "[[(''v'', ''1.5'')], [(''w'', ''x'')], [(''v'', ''2'')]]" "''v''"]
  from a b inst [THEN conjunct1] inst [THEN conjunct2]
  show ?thesis by (intro conjI)
qed

text \<open>
  C6 as stated has \<open>SUM\<close> fail on every field that is not a number. \<open>std::stod\<close> accepts a
  text that starts with a number and reads that number: on a group that holds \<open>1.5\<close> and
  \<open>2abc\<close>, \<open>SUM\<close> does not fail, it returns 3.5.
\<close>

theorem sum_accepts_leading_number_counterexample:
  "SUM_agg fp_ex [[(''v'', ''1.5'')], [(''v'', ''2abc'')]] ''v'' = Inr (7 / 2)"
  by code_simp

lemma MAX_agg_eq:
  "MAX_agg F (first # rest) c =
     (case map_of first c of
        None \<Rightarrow> Inl OutOfRange
      | Some s0 \<Rightarrow>
         (if \<forall>s\<in>set (List.map_filter (\<lambda>r. map_of r c) (first # rest)). stod F s \<noteq> None
          then Inr (foldl (\<lambda>max_val val. if fless F max_val val then val else max_val)
                      (the (stod F s0))
                      (map (\<lambda>s. the (stod F s)) (List.map_filter (\<lambda>r. map_of r c) (first # rest))))
          else Inl StodFailure))"
proof (cases "map_of first c")
  case None
  then show ?thesis by (simp add: MAX_agg_def stod_at_def)
next
  case (Some s0)
  show ?thesis
  proof (cases "stod F s0")
    case None
    then show ?thesis using Some by (simp add: MAX_agg_def stod_at_def)
  next
    case (Some seed)
    have "MAX_agg F (first # rest) c =
        fold (\<lambda>r acc.
          case acc of
            Inl e \<Rightarrow> Inl e
          | Inr a \<Rightarrow>
             (case map_of r c of
                None \<Rightarrow> Inr a
              | Some s \<Rightarrow> (case stod F s of None \<Rightarrow> Inl StodFailure
                           | Some v \<Rightarrow> Inr (if fless F a v then v else a))))
         (first # rest) (Inr seed)"
      using Some \<open>map_of first c = Some s0\<close> by (simp add: MAX_agg_def stod_at_def)
    then show ?thesis
      using Some \<open>map_of first c = Some s0\<close> by (simp only: agg_loop) simp
  qed
qed

lemma MIN_agg_eq:
  "MIN_agg F (first # rest) c =
     (case map_of first c of
        None \<Rightarrow> Inl OutOfRange
      | Some s0 \<Rightarrow>
         (if \<forall>s\<in>set (List.map_filter (\<lambda>r. map_of r c) (first # rest)). stod F s \<noteq> None
          then Inr (foldl (\<lambda>min_val val. if fless F val min_val then val else min_val)
                      (the (stod F s0))
                      (map (\<lambda>s. the (stod F s)) (List.map_filter (\<lambda>r. map_of r c) (first # rest))))
          else Inl StodFailure))"
proof (cases "map_of first c")
  case None
  then show ?thesis by (simp add: MIN_agg_def stod_at_def)
next
  case (Some s0)
  show ?thesis
  proof (cases "stod F s0")
    case None
    then show ?thesis using Some by (simp add: MIN_agg_def stod_at_def)
  next
    case (Some seed)
    have "MIN_agg F (first # rest) c =
        fold (\<lambda>r acc.
          case acc of
            Inl e \<Rightarrow> Inl e
          | Inr a \<Rightarrow>
             (case map_of r c of
                None \<Rightarrow> Inr a
              | Some s \<Rightarrow> (case stod F s of None \<Rightarrow> Inl StodFailure
                           | Some v \<Rightarrow> Inr (if fless F v a then v else a))))
         (first # rest) (Inr seed)"
      using Some \<open>map_of first c = Some s0\<close> by (simp add: MIN_agg_def stod_at_def)
    then show ?thesis
      using Some \<open>map_of first c = Some s0\<close> by (simp only: agg_loop) simp
  qed
qed

text \<open>
  Claim C7, amended. On a non-empty group \<open>MAX\<close> and \<open>MIN\<close> fail with \<open>out_of_range\<close>
  when the first row lacks the column, whatever the later rows hold. When the first row has
  it, they fail exactly when \<open>std::stod\<close> rejects the field of some row that has the column;
  otherwise the result is the running maximum (minimum) that starts from the first row's
  value and goes through the values of the rows that have the column, the rows without it
  being skipped. What \<open>std::stod\<close> rejects is a matter of the library (it reads \<open>2abc\<close> as
  2): the theorem holds for every \<open>stod\<close>.
\<close>

theorem max_min_seed_and_failure:
  "MAX_agg F (first # rest) c =
     (case map_of first c of
        None \<Rightarrow> Inl OutOfRange
      | Some s0 \<Rightarrow>
         (if \<forall>s\<in>set (List.map_filter (\<lambda>r. map_of r c) (first # rest)). stod F s \<noteq> None
          then Inr (foldl (\<lambda>max_val val. if fless F max_val val then val else max_val)
                      (the (stod F s0))
                      (map (\<lambda>s. the (stod F s)) (List.map_filter (\<lambda>r. map_of r c) (first # rest))))
          else Inl StodFailure))
   \<and> MIN_agg F (first # rest) c =
     (case map_of first c of
        None \<Rightarrow> Inl OutOfRange
      | Some s0 \<Rightarrow>
         (if \<forall>s\<in>set (List.map_filter (\<lambda>r. map_of r c) (first # rest)). stod F s \<noteq> None
          then Inr (foldl (\<lambda>min_val val. if fless F val min_val then val else min_val)
                      (the (stod F s0))
                      (map (\<lambda>s. the (stod F s)) (List.map_filter (\<lambda>r. map_of r c) (first # rest))))
          else Inl StodFailure))"
  using MAX_agg_eq [of F first rest c] MIN_agg_eq [of F first rest c] by (rule conjI)

text \<open>
  C7 as stated has \<open>MAX\<close> and \<open>MIN\<close> fail precisely when the first row lacks the column.
  Here the first row has it and both fail, on the text of the second row.
\<close>

theorem max_min_fail_on_text_counterexample:
  "map_of [(''v'', ''2'')] ''v'' = Some ''2''
   \<and> MAX_agg fp_ex [[(''v'', ''2'')], [(''v'', ''abc'')]] ''v'' = Inl StodFailure
   \<and> MIN_agg fp_ex [[(''v'', ''2'')], [(''v'', ''abc'')]] ''v'' = Inl StodFailure"
  by code_simp

text \<open>The theorem on a group with a skipped row, and on one whose first row lacks the column.\<close>

theorem max_min_seed_and_failure_witness:
  "MAX_agg fp_ex [[(''v'', ''2'')], [(''w'', ''x'')], [(''v'', ''7'')], [(''v'', ''1.5'')]] ''v'' = Inr 7
   \<and> MIN_agg fp_ex [[(''v'', ''2'')], [(''w'', ''x'')], [(''v'', ''7'')], [(''v'', ''1.5'')]] ''v'' = Inr (3 / 2)
   \<and> MAX_agg fp_ex [[(''w'', ''x'')], [(''v'', ''7'')]] ''v'' = Inl OutOfRange
   \<and> MIN_agg fp_ex [[(''w'', ''x'')], [(''v'', ''7'')]] ''v'' = Inl OutOfRange
   \<and> MAX_agg fp_ex [[(''w'', ''x'')], [(''v'', ''7'')]] ''v'' =
       (case map_of [(''w'', ''x'')] ''v'' of
          None \<Rightarrow> Inl OutOfRange
        | Some s0 \<Rightarrow>
           (if \<forall>s\<in>set (List.map_filter (\<lambda>r. map_of r ''v'') [[(''w'', ''x'')], [(''v'', ''7'')]]).
                 stod fp_ex s \<noteq> None
            then Inr (foldl (\<lambda>max_val val. if fless fp_ex max_val val then val else max_val)
                        (the (stod fp_ex s0))
                        (map (\<lambda>s. the (stod fp_ex s))
                           (List.map_filter (\<lambda>r. map_of r ''v'') [[(''w'', ''x'')], [(''v'', ''7'')]])))
            else Inl StodFailure))"
proof -
  have a: "MAX_agg fp_ex [[(''v'', ''2'')], [(''w'', ''x'')], [(''v'', ''7'')], [(''v'', ''1.5'')]] ''v'' = Inr 7"
    by code_simp
  have b: "MIN_agg fp_ex [[(''v'', ''2'')], [(''w'', ''x'')], [(''v'', ''7'')], [(''v'', ''1.5'')]] ''v'' = Inr (3 / 2)"
    by code_simp
  have c: "MAX_agg fp_ex [[(''w'', ''x'')], [(''v'', ''7'')]] ''v'' = Inl OutOfRange"
    by code_simp
  have d: "MIN_agg fp_ex [[(''w'', ''x'')], [(''v'', ''7'')]] ''v'' = Inl OutOfRange"
    by code_simp
  note inst = max_min_seed_and_failure [of fp_ex "[(''w'', ''x'')]" "[[(''v'', ''7'')]]" "''v''"]
  from a b c d inst [THEN conjunct1] show ?thesis by (intro conjI)
qed

section \<open>DISTINCT\<close>

lemma DISTINCT_loop:
  assumes "inj_on row_str (set result \<union> set tbl)" and "seen = row_str ` set result"
  shows "fst (fold (\<lambda>r (result, seen).
            if row_str r \<notin> seen then (result @ [r], insert (row_str r) seen)
            else (result, seen)) tbl (result, seen))
       = fold (\<lambda>r result. if r \<in> set result then result else result @ [r]) tbl result"
  using assms
proof (induction tbl arbitrary: result seen)
  case Nil
  then show ?case by simp
next
  case (Cons r tbl)
  have mem: "row_str r \<in> seen \<longleftrightarrow> r \<in> set result"
  proof
    assume "row_str r \<in> seen"
    then obtain r' where r': "r' \<in> set result" "row_str r' = row_str r"
      using Cons.prems(2) by auto
    have "r' \<in> set result \<union> set (r # tbl)" "r \<in> set result \<union> set (r # tbl)"
      using r' by simp_all
    with Cons.prems(1) r'(2) have "r' = r" by (rule inj_onD [where f = row_str])
    with r' show "r \<in> set result" by simp
  next
    assume "r \<in> set result"
    then show "row_str r \<in> seen" using Cons.prems(2) by simp
  qed
  show ?case
  proof (cases "r \<in> set result")
    case True
    have "inj_on row_str (set result \<union> set tbl)"
      using Cons.prems(1) by (rule inj_on_subset) auto
    from Cons.IH [OF this Cons.prems(2)] True mem show ?thesis by simp
  next
    case False
    have inj: "inj_on row_str (set (result @ [r]) \<union> set tbl)"
      using Cons.prems(1) by (rule inj_on_subset) auto
    have seen': "insert (row_str r) seen = row_str ` set (result @ [r])"
      using Cons.prems(2) by auto
    from Cons.IH [OF inj seen'] False mem show ?thesis by simp
  qed
qed

text \<open>
  Where the string built from a row determines the row, \<open>DISTINCT\<close> is what the
  specification describes.
\<close>

lemma DISTINCT_injective:
  "inj_on row_str (set tbl) \<Longrightarrow> DISTINCT tbl = distinct_spec tbl"
  unfolding DISTINCT_def distinct_spec_def
  by (rule DISTINCT_loop) simp_all

text \<open>
  Claim C3 fails on the code. The string \<open>key:value|\<close>\<dots> does not determine the row: the
  row with the single field \<open>a = "b|c:d"\<close> and the row with the two fields \<open>a = "b"\<close>,
  \<open>c = "d"\<close> are both well-formed rows, differ as mappings, and both give \<open>a:b|c:d|\<close>. On
  the table of these two rows \<open>DISTINCT\<close> drops the second as a duplicate of the first,
  where the specification keeps both.
\<close>

theorem distinct_conflates_rows:
  "wf_map wrow_bar \<and> wf_map wrow_two
   \<and> map_of wrow_bar ''c'' = None \<and> map_of wrow_two ''c'' = Some ''d''
   \<and> row_str wrow_bar = ''a:b|c:d|'' \<and> row_str wrow_two = ''a:b|c:d|''
   \<and> DISTINCT [wrow_bar, wrow_two] = [wrow_bar]
   \<and> distinct_spec [wrow_bar, wrow_two] = [wrow_bar, wrow_two]"
  by code_simp

section \<open>ORDER BY on text\<close>

lemma swo_key_less: "strict_weak_order (\<lambda>a b. (key a :: 'k::linorder) < key b)"
  by (auto simp: strict_weak_order_def)

lemma swo_key_greater: "strict_weak_order (\<lambda>a b. (key a :: 'k::linorder) > key b)"
  by (auto simp: strict_weak_order_def)

lemma sorted_keys_unique:
  assumes "mset ys = mset xs" and "sorted (map key ys)"
  shows "map key ys = sort (map key xs)"
proof -
  have "mset (map key ys) = mset (map key xs)" using assms(1) by (metis mset_map)
  with assms(2) show ?thesis by (metis properties_for_sort)
qed

lemma contract_ascending:
  assumes "std_sort_contract srt"
  shows "mset (srt (\<lambda>a b. (key a :: 'k::linorder) < key b) xs) = mset xs"
    and "map key (srt (\<lambda>a b. key a < key b) xs) = sort (map key xs)"
proof -
  let ?ys = "srt (\<lambda>a b. key a < key b) xs"
  from assms swo_key_less [of key]
  have m: "mset ?ys = mset xs" and s: "sorted_wrt (\<lambda>a b. \<not> key b < key a) ?ys"
    unfolding std_sort_contract_def by blast+
  from s have "sorted_wrt (\<lambda>a b. key a \<le> key b) ?ys" by (simp add: not_less)
  then have "sorted (map key ?ys)" by (simp add: sorted_map)
  with m show "map key ?ys = sort (map key xs)" by (rule sorted_keys_unique)
  from m show "mset ?ys = mset xs" .
qed

lemma contract_descending:
  assumes "std_sort_contract srt"
  shows "mset (srt (\<lambda>a b. (key a :: 'k::linorder) > key b) xs) = mset xs"
    and "map key (srt (\<lambda>a b. key a > key b) xs) = rev (sort (map key xs))"
proof -
  let ?ys = "srt (\<lambda>a b. key a > key b) xs"
  from assms swo_key_greater [of key]
  have m: "mset ?ys = mset xs" and s: "sorted_wrt (\<lambda>a b. \<not> key b > key a) ?ys"
    unfolding std_sort_contract_def by blast+
  from s have "sorted_wrt (\<lambda>a b. key b \<le> key a) ?ys" by (simp add: not_less)
  then have "sorted_wrt (\<lambda>a b. key a \<le> key b) (rev ?ys)" by (simp add: sorted_wrt_rev)
  then have "sorted (map key (rev ?ys))" by (simp add: sorted_map)
  moreover have "mset (rev ?ys) = mset xs" using m by simp
  ultimately have "map key (rev ?ys) = sort (map key xs)" by (rule sorted_keys_unique [rotated])
  then have "rev (map key ?ys) = sort (map key xs)" by (simp add: rev_map)
  then show "map key ?ys = rev (sort (map key xs))" by (metis rev_rev_ident)
  from m show "mset ?ys = mset xs" .
qed

text \<open>
  Claim C4, amended. On a table whose rows all have the column, \<open>ORDER_BY_ASC\<close> and
  \<open>ORDER_BY_DESC\<close> return a permutation of the table whose column values, read off in
  output order, are the sorted values of the column under the lexicographic order of the
  text, ascending and descending. Nothing is said of the relative order of rows with equal
  values: \<open>std::sort\<close> does not promise it, and on a table of more than 16 rows that of
  the GNU library does not keep it.
\<close>

theorem order_by_text_sorted_permutation:
  assumes "std_sort_contract srt" and "has_column tbl column"
  shows "\<exists>asc desc.
           ORDER_BY_ASC srt tbl column = Inr asc \<and> mset asc = mset tbl
         \<and> map (\<lambda>r. the (map_of r column)) asc = sort (map (\<lambda>r. the (map_of r column)) tbl)
         \<and> ORDER_BY_DESC srt tbl column = Inr desc \<and> mset desc = mset tbl
         \<and> map (\<lambda>r. the (map_of r column)) desc
             = rev (sort (map (\<lambda>r. the (map_of r column)) tbl))"
proof -
  from assms(2) have "\<not> (\<exists>r\<in>set tbl. map_of r column = None)"
    by (simp add: has_column_def)
  then have a: "ORDER_BY_ASC srt tbl column
        = Inr (srt (\<lambda>a b. the (map_of a column) < the (map_of b column)) tbl)"
    and d: "ORDER_BY_DESC srt tbl column
        = Inr (srt (\<lambda>a b. the (map_of a column) > the (map_of b column)) tbl)"
    by (simp_all add: ORDER_BY_ASC_def ORDER_BY_DESC_def)
  show ?thesis
    unfolding a d
    using contract_ascending [OF assms(1), of "\<lambda>r. the (map_of r column)" tbl]
      contract_descending [OF assms(1), of "\<lambda>r. the (map_of r column)" tbl]
    by blast
qed

text \<open>The example sort keeps the contract.\<close>

lemma mset_insert_by: "mset (insert_by cmp x ys) = add_mset x (mset ys)"
  by (induction ys) auto

lemma set_insert_by: "set (insert_by cmp x ys) = insert x (set ys)"
  by (induction ys) auto

lemma sorted_insert_by:
  assumes "strict_weak_order cmp" and "sorted_wrt (\<lambda>a b. \<not> cmp b a) ys"
  shows "sorted_wrt (\<lambda>a b. \<not> cmp b a) (insert_by cmp x ys)"
  using assms(2)
proof (induction ys)
  case Nil
  then show ?case by simp
next
  case (Cons y ys)
  from assms(1) have irr: "\<And>a. \<not> cmp a a" and tr: "\<And>a b c. cmp a b \<Longrightarrow> cmp b c \<Longrightarrow> cmp a c"
    unfolding strict_weak_order_def by blast+
  show ?case
  proof (cases "cmp x y")
    case True
    have "\<not> cmp y x" using True irr tr by blast
    moreover have "\<not> cmp z x" if "z \<in> set ys" for z
    proof
      assume "cmp z x"
      from this True have "cmp z y" by (rule tr)
      with Cons.prems that show False by auto
    qed
    ultimately show ?thesis using True Cons.prems by auto
  next
    case False
    with Cons show ?thesis by (auto simp: set_insert_by)
  qed
qed

lemma mset_fold_insert_by: "mset (fold (insert_by cmp) xs acc) = mset xs + mset acc"
  by (induction xs arbitrary: acc) (simp_all add: mset_insert_by)

lemma sorted_fold_insert_by:
  assumes "strict_weak_order cmp" and "sorted_wrt (\<lambda>a b. \<not> cmp b a) acc"
  shows "sorted_wrt (\<lambda>a b. \<not> cmp b a) (fold (insert_by cmp) xs acc)"
  using assms(2) by (induction xs arbitrary: acc) (simp_all add: sorted_insert_by [OF assms(1)])

lemma sort_ex_contract: "std_sort_contract sort_ex"
  unfolding std_sort_contract_def
proof (intro allI impI conjI)
  fix cmp :: "'a \<Rightarrow> 'a \<Rightarrow> bool" and xs
  show "mset (sort_ex cmp xs) = mset xs"
    by (simp add: sort_ex_def mset_fold_insert_by)
  assume "strict_weak_order cmp"
  then show "sorted_wrt (\<lambda>a b. \<not> cmp b a) (sort_ex cmp xs)"
    unfolding sort_ex_def by (rule sorted_fold_insert_by) simp
qed

text \<open>
  C4 as stated makes the ordering stable, on every table. On the seventeen rows of
  \<^const>\<open>wtable17\<close>, which all hold the same text in the column, \<open>std::sort\<close> of the GNU
  library moves the median of the second, the middle and the last row to the front and then
  swaps rows across the front row while partitioning: the ninth row comes out first and the
  first row tenth, in \<open>ORDER_BY_ASC\<close> and in \<open>ORDER_BY_DESC\<close>. And on a table where a row
  lacks the column the orderings throw, whatever the sort.
\<close>

theorem order_by_not_stable_counterexample:
  "map (\<lambda>r. map_of r ''k'') wtable17 = replicate 17 (Some ''x'')
   \<and> ORDER_BY_ASC gnu_sort wtable17 ''k''
       = Inr (map wrow_id [''09'', ''17'', ''16'', ''15'', ''14'', ''13'', ''12'', ''11'', ''10'',
                           ''01'', ''08'', ''07'', ''06'', ''05'', ''04'', ''03'', ''02''])
   \<and> ORDER_BY_DESC gnu_sort wtable17 ''k''
       = Inr (map wrow_id [''09'', ''17'', ''16'', ''15'', ''14'', ''13'', ''12'', ''11'', ''10'',
                           ''01'', ''08'', ''07'', ''06'', ''05'', ''04'', ''03'', ''02''])
   \<and> ORDER_BY_ASC gnu_sort [wrow1, wrowR1] ''k'' = Inl OutOfRange
   \<and> ORDER_BY_DESC gnu_sort [wrow1, wrowR1] ''k'' = Inl OutOfRange"
  by code_simp

text \<open>
  The theorem on three rows, two of them with the same value: these come out in the order
  they went in, from the example sort as from the GNU \<open>std::sort\<close>.
\<close>

theorem order_by_text_sorted_permutation_witness:
  "std_sort_contract (sort_ex :: (row \<Rightarrow> row \<Rightarrow> bool) \<Rightarrow> table \<Rightarrow> table)
   \<and> has_column [wrow2, wrow1, wrow3] ''k''
   \<and> ORDER_BY_ASC sort_ex [wrow2, wrow1, wrow3] ''k'' = Inr [wrow1, wrow3, wrow2]
   \<and> ORDER_BY_DESC sort_ex [wrow2, wrow1, wrow3] ''k'' = Inr [wrow2, wrow1, wrow3]
   \<and> ORDER_BY_ASC gnu_sort [wrow2, wrow1, wrow3] ''k'' = Inr [wrow1, wrow3, wrow2]
   \<and> ORDER_BY_DESC gnu_sort [wrow2, wrow1, wrow3] ''k'' = Inr [wrow2, wrow1, wrow3]
   \<and> (\<exists>asc desc.
           ORDER_BY_ASC sort_ex [wrow2, wrow1, wrow3] ''k'' = Inr asc \<and> mset asc = mset [wrow2, wrow1, wrow3]
         \<and> map (\<lambda>r. the (map_of r ''k'')) asc = sort (map (\<lambda>r. the (map_of r ''k'')) [wrow2, wrow1, wrow3])
         \<and> ORDER_BY_DESC sort_ex [wrow2, wrow1, wrow3] ''k'' = Inr desc \<and> mset desc = mset [wrow2, wrow1, wrow3]
         \<and> map (\<lambda>r. the (map_of r ''k'')) desc
             = rev (sort (map (\<lambda>r. the (map_of r ''k'')) [wrow2, wrow1, wrow3])))"
proof -
  have h: "has_column [wrow2, wrow1, wrow3] ''k''" by code_simp
  have a: "ORDER_BY_ASC sort_ex [wrow2, wrow1, wrow3] ''k'' = Inr [wrow1, wrow3, wrow2]"
    by code_simp
  have d: "ORDER_BY_DESC sort_ex [wrow2, wrow1, wrow3] ''k'' = Inr [wrow2, wrow1, wrow3]"
    by code_simp
  have ga: "ORDER_BY_ASC gnu_sort [wrow2, wrow1, wrow3] ''k'' = Inr [wrow1, wrow3, wrow2]"
    by code_simp
  have gd: "ORDER_BY_DESC gnu_sort [wrow2, wrow1, wrow3] ''k'' = Inr [wrow2, wrow1, wrow3]"
    by code_simp
  from sort_ex_contract h a d ga gd order_by_text_sorted_permutation [OF sort_ex_contract h]
  show ?thesis by (intro conjI)
qed

section \<open>Helper lemmas: the query\<close>

lemma bind_err_Inr [simp]: "bind_err (Inr x) f = f x"
  by (simp add: bind_err_def)

lemma bind_err_Inl [simp]: "bind_err (Inl e) f = Inl e"
  by (simp add: bind_err_def)

text \<open>The hash join as the query calls it: it returns, and its rows are merged matches.\<close>

lemma INNER_JOIN_threads_chunks:
  assumes "0 < t" and "t < 2 ^ 31"
  shows "INNER_JOIN_threads L R lc rc t =
           Inr (concat (map (\<lambda>i. INNER_JOIN (chunk L t i) R (JOIN_ON lc rc)) [0..<nat t]))"
  unfolding INNER_JOIN_threads_def
  using assms is_schedule_upt by (rule INNER_JOIN_sched_chunks)

lemma chunk_Nil: "chunk [] t i = []"
  by (simp add: chunk_eq)

lemma INNER_JOIN_Nil_right: "INNER_JOIN L [] p = []"
  by (simp add: INNER_JOIN_concat)

lemma INNER_JOIN_Nil_left: "INNER_JOIN [] R p = []"
  by (simp add: INNER_JOIN_concat)

lemma set_merge_rows: "set (merge_rows l r) \<subseteq> set l \<union> set r"
proof -
  have a: "set (map_assign k v m) \<subseteq> insert (k, v) (set m)" for k :: string and v :: string and m
    by (induction m) (auto split: if_splits)
  have "set (fold (\<lambda>(k, v) m. map_assign k v m) r l) \<subseteq> set l \<union> set r"
  proof (induction r arbitrary: l)
    case Nil
    then show ?case by simp
  next
    case (Cons e r)
    obtain k v where e: "e = (k, v)" by (cases e)
    have "set (fold (\<lambda>(k, v) m. map_assign k v m) r (map_assign k v l))
           \<subseteq> set (map_assign k v l) \<union> set r"
      by (rule Cons.IH)
    with a [of k v l] show ?case by (auto simp: e)
  qed
  then show ?thesis by (simp add: merge_rows_def)
qed

lemma join_rows_invariant:
  assumes "0 < t" and "t < 2 ^ 31"
    and "\<forall>l\<in>set L. A l" and "\<forall>r\<in>set R. B r"
    and "\<And>l r. A l \<Longrightarrow> B r \<Longrightarrow> JOIN_ON lc rc l r \<Longrightarrow> C (merge_rows l r)"
  shows "\<exists>res. INNER_JOIN_threads L R lc rc t = Inr res \<and> (\<forall>x\<in>set res. C x)
           \<and> (L = [] \<or> R = [] \<longrightarrow> res = [])"
proof -
  let ?res = "concat (map (\<lambda>i. INNER_JOIN (chunk L t i) R (JOIN_ON lc rc)) [0..<nat t])"
  have eq: "INNER_JOIN_threads L R lc rc t = Inr ?res"
    using assms(1,2) by (rule INNER_JOIN_threads_chunks)
  have "C x" if "x \<in> set ?res" for x
  proof -
    from that obtain i where "x \<in> set (INNER_JOIN (chunk L t i) R (JOIN_ON lc rc))" by auto
    then obtain l r where x: "x = merge_rows l r" and l: "l \<in> set (chunk L t i)"
      and r: "r \<in> set R" and j: "JOIN_ON lc rc l r"
      by (auto simp: set_INNER_JOIN)
    from l set_chunk_subset [of L t i] have "l \<in> set L" by blast
    with assms(3,4) r have "A l" "B r" by blast+
    from this j show ?thesis unfolding x by (rule assms(5))
  qed
  moreover have "?res = []" if "L = [] \<or> R = []"
    using that by (auto simp: chunk_Nil INNER_JOIN_Nil_left INNER_JOIN_Nil_right)
  ultimately show ?thesis using eq by blast
qed

text \<open>The loops of the query.\<close>

lemma WHERE_throwing_total:
  assumes "\<forall>r\<in>set tbl. predicate r = Inr (q r)"
  shows "WHERE_throwing tbl predicate = Inr (filter q tbl)"
proof -
  have "fold (\<lambda>r acc.
        bind_err acc (\<lambda>result.
        bind_err (predicate r) (\<lambda>b. Inr (if b then result @ [r] else result))))
       tbl (Inr acc) = Inr (acc @ filter q tbl)" for acc
    using assms by (induction tbl arbitrary: acc) auto
  from this [of "[]"] show ?thesis by (simp add: WHERE_throwing_def)
qed

lemma append_loop:
  assumes "\<forall>r\<in>set xs. \<forall>a. step r a = Inr (a @ [g r])"
  shows "fold (\<lambda>r acc. bind_err acc (step r)) xs (Inr a) = Inr (a @ map g xs)"
  using assms by (induction xs arbitrary: a) auto

lemma total_loop:
  assumes "\<forall>r\<in>set xs. \<forall>a. \<exists>a'. step r a = Inr a'"
  shows "\<exists>res. fold (\<lambda>r acc. bind_err acc (step r)) xs (Inr a) = Inr res"
  using assms
proof (induction xs arbitrary: a)
  case Nil
  then show ?case by simp
next
  case (Cons r xs)
  from Cons.prems obtain a' where "step r a = Inr a'" by (metis list.set_intros(1))
  with Cons.IH [of a'] Cons.prems show ?case by auto
qed

text \<open>The row invariant through a join.\<close>

lemma row_inv_mono: "row_inv F ks r \<Longrightarrow> set ks' \<subseteq> set ks \<Longrightarrow> row_inv F ks' r"
  unfolding row_inv_def by blast

lemma row_inv_merge:
  assumes "row_inv F ks1 l" and "row_inv F ks2 r" and "set ks \<subseteq> set ks1 \<union> set ks2"
  shows "row_inv F ks (merge_rows l r)"
  unfolding row_inv_def
proof (intro conjI ballI)
  fix e assume "e \<in> set (merge_rows l r)"
  with set_merge_rows [of l r] have "e \<in> set l \<or> e \<in> set r" by blast
  with assms(1,2)
  show "case e of (k, s) \<Rightarrow> k \<in> numeric_columns \<longrightarrow> stod F s \<noteq> None"
    unfolding row_inv_def by blast
next
  fix k assume "k \<in> set ks"
  with assms have "map_of l k \<noteq> None \<or> map_of r k \<noteq> None"
    unfolding row_inv_def by blast
  then have "k \<in> fst ` set l \<union> fst ` set r"
    by (auto simp: map_of_eq_None_iff)
  then have "k \<in> fst ` set (merge_rows l r)" by (simp only: keys_merge_rows)
  then show "map_of (merge_rows l r) k \<noteq> None" by (simp add: map_of_eq_None_iff)
qed

lemma row_inv_JOIN_ON:
  assumes "row_inv F ks1 l" and "row_inv F ks2 r" and "JOIN_ON lc rc l r"
  shows "row_inv F (lc # ks1) l" and "row_inv F (rc # ks2) r"
  using assms unfolding row_inv_def JOIN_ON_def by auto

lemma join_row_inv:
  assumes "0 < t" and "t < 2 ^ 31"
    and "\<forall>l\<in>set L. row_inv F ks1 l" and "\<forall>r\<in>set R. row_inv F ks2 r"
    and "set ks \<subseteq> set (lc # ks1) \<union> set (rc # ks2)"
  shows "\<exists>res. INNER_JOIN_threads L R lc rc t = Inr res \<and> (\<forall>x\<in>set res. row_inv F ks x)
           \<and> (L = [] \<or> R = [] \<longrightarrow> res = [])"
  using assms(1-4)
proof (rule join_rows_invariant)
  fix l r assume "row_inv F ks1 l" "row_inv F ks2 r" "JOIN_ON lc rc l r"
  then have "row_inv F (lc # ks1) l" "row_inv F (rc # ks2) r"
    by (rule row_inv_JOIN_ON)+
  then show "row_inv F ks (merge_rows l r)" using assms(5) by (rule row_inv_merge)
qed

lemma row_inv_initial:
  assumes "numeric_fields_ok F tbl" and "\<forall>k\<in>set ks. has_column tbl k"
  shows "\<forall>r\<in>set tbl. row_inv F ks r"
proof
  fix r assume r: "r \<in> set tbl"
  with assms(1) have wf: "wf_map r"
    and num: "\<forall>k\<in>numeric_columns.
                case map_of r k of None \<Rightarrow> True | Some s \<Rightarrow> stod F s \<noteq> None"
    unfolding numeric_fields_ok_def by blast+
  have "stod F s \<noteq> None" if "(k, s) \<in> set r" "k \<in> numeric_columns" for k s
  proof -
    from that(1) wf_map_distinct [OF wf] have "map_of r k = Some s" by simp
    with num that(2) show ?thesis by force
  qed
  moreover have "map_of r k \<noteq> None" if "k \<in> set ks" for k
    using assms(2) that r unfolding has_column_def by blast
  ultimately show "row_inv F ks r" unfolding row_inv_def by blast
qed

lemma row_inv_stod_at:
  assumes "row_inv F ks r" and "k \<in> set ks" and "k \<in> numeric_columns"
  shows "\<exists>v. stod_at F r k = Inr v"
proof -
  from assms(1,2) obtain s where s: "map_of r k = Some s" unfolding row_inv_def by blast
  then have "(k, s) \<in> set r" by (rule map_of_SomeD)
  with assms(1,3) have "stod F s \<noteq> None" unfolding row_inv_def by blast
  with s show ?thesis by (auto simp: stod_at_def)
qed

lemma row_inv_map_at:
  assumes "row_inv F ks r" and "k \<in> set ks"
  shows "map_at r k = Inr (the (map_of r k))"
  using assms unfolding row_inv_def map_at_def by auto

text \<open>The stages after the joins.\<close>

lemma new_row_eq:
  "map_assign ''REVENUE'' x (map_assign ''N_NAME'' n []) = [(''N_NAME'', n), (''REVENUE'', x)]"
  by simp

lemma numeric_columns_mem:
  "''L_EXTENDEDPRICE'' \<in> numeric_columns" "''L_DISCOUNT'' \<in> numeric_columns"
  by (simp_all add: numeric_columns_def)

lemma revenue_rows_ok:
  assumes "\<forall>x\<in>set fj. row_inv F [''N_NAME'', ''L_EXTENDEDPRICE'', ''L_DISCOUNT''] x"
  shows "\<exists>wr. revenue_rows F fj = Inr wr \<and> (\<forall>y\<in>set wr. is_revenue_row F y)
           \<and> (fj = [] \<longrightarrow> wr = [])"
proof -
  define ks where "ks = [''N_NAME'', ''L_EXTENDEDPRICE'', ''L_DISCOUNT'']"
  have mem: "''N_NAME'' \<in> set ks" "''L_EXTENDEDPRICE'' \<in> set ks" "''L_DISCOUNT'' \<in> set ks"
    by (simp_all add: ks_def)
  define step where "step = (\<lambda>r with_revenue.
        bind_err (map_at r ''N_NAME'') (\<lambda>n_name.
        bind_err (stod_at F r ''L_EXTENDEDPRICE'') (\<lambda>price.
        bind_err (stod_at F r ''L_DISCOUNT'') (\<lambda>discount.
          let revenue = fmul F price (fsub F (fone F) discount);
              new_row = map_assign ''REVENUE'' (to_string F revenue)
                          (map_assign ''N_NAME'' n_name [])
          in Inr (with_revenue @ [new_row])))))"
  define g where "g = (\<lambda>r. [(''N_NAME'', the (map_of r ''N_NAME'')),
        (''REVENUE'', to_string F (fmul F (projr (stod_at F r ''L_EXTENDEDPRICE''))
           (fsub F (fone F) (projr (stod_at F r ''L_DISCOUNT'')))))])"
  have rr: "revenue_rows F fj = fold (\<lambda>r acc. bind_err acc (step r)) fj (Inr [])"
    by (simp add: revenue_rows_def step_def)
  have st: "step r a = Inr (a @ [g r])" if "r \<in> set fj" for r a
  proof -
    from that assms have inv: "row_inv F ks r" by (simp add: ks_def)
    have n: "map_at r ''N_NAME'' = Inr (the (map_of r ''N_NAME''))"
      using inv mem(1) by (rule row_inv_map_at)
    obtain p where p: "stod_at F r ''L_EXTENDEDPRICE'' = Inr p"
      using row_inv_stod_at [OF inv mem(2) numeric_columns_mem(1)] by blast
    obtain d where d: "stod_at F r ''L_DISCOUNT'' = Inr d"
      using row_inv_stod_at [OF inv mem(3) numeric_columns_mem(2)] by blast
    show ?thesis
      unfolding step_def g_def n p d by (simp only: bind_err_Inr Let_def new_row_eq sum.sel)
  qed
  then have "fold (\<lambda>r acc. bind_err acc (step r)) fj (Inr []) = Inr ([] @ map g fj)"
    by (intro append_loop) blast
  with rr have eq: "revenue_rows F fj = Inr (map g fj)" by simp
  have "is_revenue_row F (g r)" for r
    unfolding is_revenue_row_def g_def by blast
  with eq show ?thesis by auto
qed

lemma is_revenue_row_SUM:
  assumes "\<forall>d. stod F (to_string F d) \<noteq> None" and "\<forall>y\<in>set grp. is_revenue_row F y"
  shows "\<exists>s. SUM_agg F grp ''REVENUE'' = Inr s"
proof -
  have "stod F s \<noteq> None" if "s \<in> set (List.map_filter (\<lambda>r. map_of r ''REVENUE'') grp)" for s
  proof -
    from that obtain y where y: "y \<in> set grp" "map_of y ''REVENUE'' = Some s"
      by (auto simp: List.map_filter_def)
    from y(1) assms(2) obtain n v where "y = [(''N_NAME'', n), (''REVENUE'', to_string F v)]"
      unfolding is_revenue_row_def by blast
    with y(2) have "s = to_string F v" by simp
    with assms(1) show ?thesis by simp
  qed
  then show ?thesis by (simp add: SUM_agg_eq)
qed

lemma aggregate_rows_ok:
  assumes "\<forall>d. stod F (to_string F d) \<noteq> None" and "\<forall>y\<in>set wr. is_revenue_row F y"
  shows "\<exists>ag. aggregate_rows F (GROUP_BY wr ''N_NAME'') = Inr ag
           \<and> (\<forall>y\<in>set ag. is_revenue_row F y) \<and> (wr = [] \<longrightarrow> ag = [])"
proof -
  define grouped where "grouped = GROUP_BY wr ''N_NAME''"
  define step where "step = (\<lambda>(nation_name, group_rows) aggregated.
        bind_err (SUM_agg F group_rows ''REVENUE'') (\<lambda>s.
          let result_row = map_assign ''REVENUE'' (to_string F s)
                             (map_assign ''N_NAME'' nation_name [])
          in Inr (aggregated @ [result_row])))"
  define g where "g = (\<lambda>(nation_name, group_rows).
        [(''N_NAME'', nation_name),
         (''REVENUE'', to_string F (projr (SUM_agg F group_rows ''REVENUE'')))])"
  have ar: "aggregate_rows F grouped = fold (\<lambda>e acc. bind_err acc (step e)) grouped (Inr [])"
    unfolding aggregate_rows_def step_def
    by (rule arg_cong [where f = "\<lambda>f. fold f grouped (Inr [])"]) (auto simp: fun_eq_iff)
  have st: "step e a = Inr (a @ [g e])" if "e \<in> set grouped" for e a
  proof -
    obtain k grp where e: "e = (k, grp)" by (cases e)
    from that have "grp = filter (\<lambda>r. map_of r ''N_NAME'' = Some k) wr"
      unfolding grouped_def e GROUP_BY_entry by simp
    then have "set grp \<subseteq> set wr" by auto
    with assms(2) have "\<forall>y\<in>set grp. is_revenue_row F y" by blast
    with assms(1) obtain s where "SUM_agg F grp ''REVENUE'' = Inr s"
      using is_revenue_row_SUM by blast
    then show ?thesis
      unfolding step_def g_def e by (simp only: split_conv bind_err_Inr Let_def new_row_eq sum.sel)
  qed
  then have "fold (\<lambda>e acc. bind_err acc (step e)) grouped (Inr []) = Inr ([] @ map g grouped)"
    by (intro append_loop) blast
  with ar have eq: "aggregate_rows F grouped = Inr (map g grouped)" by simp
  have "is_revenue_row F (g e)" for e
    unfolding is_revenue_row_def g_def by (cases e) (simp only: split_conv, blast)
  moreover have "grouped = []" if "wr = []"
    using that by (simp add: grouped_def GROUP_BY_def)
  ultimately show ?thesis using eq unfolding grouped_def by auto
qed

lemma is_revenue_row_stod_at:
  assumes "\<forall>d. stod F (to_string F d) \<noteq> None" and "is_revenue_row F y"
  shows "\<exists>v. stod_at F y ''REVENUE'' = Inr v" and "\<exists>n. map_at y ''N_NAME'' = Inr n"
proof -
  from assms(2) obtain n v where y: "y = [(''N_NAME'', n), (''REVENUE'', to_string F v)]"
    unfolding is_revenue_row_def by blast
  from assms(1) obtain w where "stod F (to_string F v) = Some w" by fastforce
  then show "\<exists>v. stod_at F y ''REVENUE'' = Inr v" by (simp add: y stod_at_def)
  show "\<exists>n. map_at y ''N_NAME'' = Inr n" by (simp add: y map_at_def)
qed

lemma swo_inverse_image:
  assumes "strict_weak_order lt"
  shows "strict_weak_order (\<lambda>a b. lt (f b) (f a))"
proof -
  from assms have irr: "\<And>a. \<not> lt a a"
    and tr: "\<And>a b c. lt a b \<Longrightarrow> lt b c \<Longrightarrow> lt a c"
    and inc: "\<And>a b c. \<not> lt a b \<Longrightarrow> \<not> lt b a \<Longrightarrow> \<not> lt b c \<Longrightarrow> \<not> lt c b \<Longrightarrow> \<not> lt a c \<and> \<not> lt c a"
    unfolding strict_weak_order_def by blast+
  show ?thesis
    unfolding strict_weak_order_def
  proof (intro conjI allI impI)
    fix a show "\<not> lt (f a) (f a)" by (rule irr)
  next
    fix a b c assume "lt (f b) (f a) \<and> lt (f c) (f b)"
    then show "lt (f c) (f a)" using tr by blast
  next
    fix a b c
    assume h: "\<not> lt (f b) (f a) \<and> \<not> lt (f a) (f b) \<and> \<not> lt (f c) (f b) \<and> \<not> lt (f b) (f c)"
    then have "\<not> lt (f a) (f c) \<and> \<not> lt (f c) (f a)" by (intro inc [of "f a" "f b" "f c"]) simp_all
    then show "\<not> lt (f c) (f a)" "\<not> lt (f a) (f c)" by simp_all
  qed
qed

lemma ORDER_BY_DESC_stod_ok:
  assumes "library_ok F srt" and "\<forall>y\<in>set ag. is_revenue_row F y"
  shows "\<exists>sorted_rows. ORDER_BY_DESC_stod F srt ag ''REVENUE'' = Inr sorted_rows
           \<and> mset sorted_rows = mset ag"
proof -
  from assms(1) have c: "std_sort_contract srt" and w: "strict_weak_order (fless F)"
    and p: "\<forall>d. stod F (to_string F d) \<noteq> None"
    unfolding library_ok_def by blast+
  have "\<not> isl (stod_at F r ''REVENUE'')" if "r \<in> set ag" for r
  proof -
    from assms(2) that have "is_revenue_row F r" by (rule bspec)
    from is_revenue_row_stod_at(1) [OF p this] show ?thesis by auto
  qed
  then have eq: "ORDER_BY_DESC_stod F srt ag ''REVENUE''
      = Inr (srt (\<lambda>a b. fless F (projr (stod_at F b ''REVENUE'')) (projr (stod_at F a ''REVENUE''))) ag)"
    by (simp add: ORDER_BY_DESC_stod_def)
  have "strict_weak_order (\<lambda>a b. fless F (projr (stod_at F b ''REVENUE'')) (projr (stod_at F a ''REVENUE'')))"
    using swo_inverse_image [OF w, of "\<lambda>r. projr (stod_at F r ''REVENUE'')"] .
  with c have "mset (srt (\<lambda>a b. fless F (projr (stod_at F b ''REVENUE'')) (projr (stod_at F a ''REVENUE''))) ag) = mset ag"
    unfolding std_sort_contract_def by blast
  with eq show ?thesis by simp
qed

lemma store_results_ok:
  assumes "\<forall>d. stod F (to_string F d) \<noteq> None" and "\<forall>y\<in>set rows. is_revenue_row F y"
  shows "\<exists>res. store_results F rows results = Inr res \<and> (rows = [] \<longrightarrow> res = results)"
proof -
  define step where "step = (\<lambda>r results.
        bind_err (stod_at F r ''REVENUE'') (\<lambda>v.
        bind_err (map_at r ''N_NAME'') (\<lambda>n_name. Inr (map_assign n_name v results))))"
  have sr: "store_results F rows results = fold (\<lambda>r acc. bind_err acc (step r)) rows (Inr results)"
    by (simp add: store_results_def step_def)
  have "\<exists>a'. step r a = Inr a'" if "r \<in> set rows" for r a
  proof -
    from that assms(2) have y: "is_revenue_row F r" by blast
    obtain v where v: "stod_at F r ''REVENUE'' = Inr v"
      using is_revenue_row_stod_at(1) [OF assms(1) y] by blast
    obtain n where n: "map_at r ''N_NAME'' = Inr n"
      using is_revenue_row_stod_at(2) [OF assms(1) y] by blast
    show ?thesis unfolding step_def v n by simp
  qed
  then have "\<exists>res. fold (\<lambda>r acc. bind_err acc (step r)) rows (Inr results) = Inr res"
    by (intro total_loop) blast
  then obtain res where res: "store_results F rows results = Inr res"
    unfolding sr by blast
  moreover have "res = results" if "rows = []"
    using res that by (simp add: store_results_def)
  ultimately show ?thesis by blast
qed

section \<open>The query: failure and the empty result\<close>

text \<open>
  Claim C5. Let the thread count be a positive \<open>int\<close>, the library behave, and the six tables
  be well formed. Then \<open>executeQuery5\<close> throws nothing: it returns \<open>false\<close> or \<open>true\<close>. It
  returns \<open>false\<close> exactly when no row of the region table has \<open>R_NAME\<close> equal to
  \<open>r_name\<close>, and then leaves \<open>results\<close> as it was. When a region matches and no order has its
  date in \<open>[start_date, end_date)\<close>, it returns \<open>true\<close> and adds nothing to \<open>results\<close>: the
  map handed in empty, as \<open>main\<close> does, comes back empty.
\<close>

theorem query5_fails_only_on_empty_region:
  assumes t: "0 < num_threads" "num_threads < 2 ^ 31"
    and lib: "library_ok F srt"
    and wf: "well_formed_inputs F customer_data orders_data lineitem_data supplier_data
               nation_data region_data"
  shows "\<exists>ok res.
           executeQuery5 F srt r_name start_date end_date num_threads customer_data orders_data
             lineitem_data supplier_data nation_data region_data results = Inr (ok, res)
         \<and> (\<not> ok \<longleftrightarrow> WHERE region_data (EQUALS ''R_NAME'' r_name) = [])
         \<and> (\<not> ok \<longrightarrow> res = results)
         \<and> (ok \<and> filter (\<lambda>r. the (map_of r ''O_ORDERDATE'') \<ge> start_date
                              \<and> the (map_of r ''O_ORDERDATE'') < end_date) orders_data = []
              \<longrightarrow> res = results)"
proof (cases "WHERE region_data (EQUALS ''R_NAME'' r_name) = []")
  case True
  then have "executeQuery5 F srt r_name start_date end_date num_threads customer_data orders_data
             lineitem_data supplier_data nation_data region_data results = Inr (False, results)"
    by (simp add: executeQuery5_def)
  with True show ?thesis by (intro exI [of _ False] exI [of _ results]) simp
next
  case False
  define filtered_region where "filtered_region = WHERE region_data (EQUALS ''R_NAME'' r_name)"
  define dateq where "dateq = (\<lambda>r :: row. the (map_of r ''O_ORDERDATE'') \<ge> start_date
                              \<and> the (map_of r ''O_ORDERDATE'') < end_date)"
  define keyq where "keyq = (\<lambda>r :: row. the (map_of r ''C_NATIONKEY'') = the (map_of r ''S_NATIONKEY''))"
  from lib have p: "\<forall>d. stod F (to_string F d) \<noteq> None" unfolding library_ok_def by blast
  from wf have num: "numeric_fields_ok F customer_data" "numeric_fields_ok F orders_data"
      "numeric_fields_ok F lineitem_data" "numeric_fields_ok F supplier_data"
      "numeric_fields_ok F nation_data" "numeric_fields_ok F region_data"
    and col: "has_column nation_data ''N_NAME''" "has_column orders_data ''O_ORDERDATE''"
      "has_column lineitem_data ''L_EXTENDEDPRICE''" "has_column lineitem_data ''L_DISCOUNT''"
    unfolding well_formed_inputs_def by blast+
  have region: "\<forall>r\<in>set filtered_region. row_inv F [] r"
    using row_inv_initial [OF num(6), of "[]"] by (simp add: filtered_region_def WHERE_filter)
  have nation: "\<forall>r\<in>set nation_data. row_inv F [''N_NAME''] r"
    using col(1) by (intro row_inv_initial [OF num(5)]) simp
  have customer: "\<forall>r\<in>set customer_data. row_inv F [] r"
    by (intro row_inv_initial [OF num(1)]) simp
  have supplier: "\<forall>r\<in>set supplier_data. row_inv F [] r"
    by (intro row_inv_initial [OF num(4)]) simp
  have orders: "\<forall>r\<in>set orders_data. row_inv F [''O_ORDERDATE''] r"
    using col(2) by (intro row_inv_initial [OF num(2)]) simp
  have lineitem: "\<forall>r\<in>set lineitem_data. row_inv F [''L_EXTENDEDPRICE'', ''L_DISCOUNT''] r"
    using col(3,4) by (intro row_inv_initial [OF num(3)]) simp

  obtain nation_region where nr:
    "INNER_JOIN_threads nation_data filtered_region ''N_REGIONKEY'' ''R_REGIONKEY'' num_threads
       = Inr nation_region"
    "\<forall>x\<in>set nation_region. row_inv F [''N_NAME''] x"
    using join_row_inv [OF t nation region, of "[''N_NAME'']" "''N_REGIONKEY''" "''R_REGIONKEY''"]
    by auto
  obtain customer_nation where cn:
    "INNER_JOIN_threads customer_data nation_region ''C_NATIONKEY'' ''N_NATIONKEY'' num_threads
       = Inr customer_nation"
    "\<forall>x\<in>set customer_nation. row_inv F [''N_NAME'', ''C_NATIONKEY''] x"
    using join_row_inv [OF t customer nr(2), of "[''N_NAME'', ''C_NATIONKEY'']" "''C_NATIONKEY''"
        "''N_NATIONKEY''"]
    by auto
  have fo: "WHERE_throwing orders_data (\<lambda>r.
               bind_err (map_at r ''O_ORDERDATE'') (\<lambda>date.
                 Inr (date \<ge> start_date \<and> date < end_date))) = Inr (filter dateq orders_data)"
  proof (rule WHERE_throwing_total, rule ballI)
    fix r assume "r \<in> set orders_data"
    with orders have "row_inv F [''O_ORDERDATE''] r" by blast
    then have "map_at r ''O_ORDERDATE'' = Inr (the (map_of r ''O_ORDERDATE''))"
      by (rule row_inv_map_at) simp
    then show "bind_err (map_at r ''O_ORDERDATE'') (\<lambda>date.
                 Inr (date \<ge> start_date \<and> date < end_date)) = Inr (dateq r)"
      by (simp add: dateq_def)
  qed
  have forders: "\<forall>r\<in>set (filter dateq orders_data). row_inv F [] r"
    using orders by (auto intro: row_inv_mono)
  obtain customer_orders where co:
    "INNER_JOIN_threads customer_nation (filter dateq orders_data) ''C_CUSTKEY'' ''O_CUSTKEY''
       num_threads = Inr customer_orders"
    "\<forall>x\<in>set customer_orders. row_inv F [''N_NAME'', ''C_NATIONKEY''] x"
    "filter dateq orders_data = [] \<longrightarrow> customer_orders = []"
    using join_row_inv [OF t cn(2) forders, of "[''N_NAME'', ''C_NATIONKEY'']" "''C_CUSTKEY''"
        "''O_CUSTKEY''"]
    by auto
  obtain supplier_nation where sn:
    "INNER_JOIN_threads supplier_data nation_region ''S_NATIONKEY'' ''N_NATIONKEY'' num_threads
       = Inr supplier_nation"
    "\<forall>x\<in>set supplier_nation. row_inv F [''S_NATIONKEY''] x"
    using join_row_inv [OF t supplier nr(2), of "[''S_NATIONKEY'']" "''S_NATIONKEY''"
        "''N_NATIONKEY''"]
    by auto
  obtain lineitem_orders where lo:
    "INNER_JOIN_threads lineitem_data customer_orders ''L_ORDERKEY'' ''O_ORDERKEY'' num_threads
       = Inr lineitem_orders"
    "\<forall>x\<in>set lineitem_orders.
        row_inv F [''N_NAME'', ''L_EXTENDEDPRICE'', ''L_DISCOUNT'', ''C_NATIONKEY''] x"
    "customer_orders = [] \<longrightarrow> lineitem_orders = []"
    using join_row_inv [OF t lineitem co(2),
        of "[''N_NAME'', ''L_EXTENDEDPRICE'', ''L_DISCOUNT'', ''C_NATIONKEY'']" "''L_ORDERKEY''"
        "''O_ORDERKEY''"]
    by auto
  obtain temp_join where tj:
    "INNER_JOIN_threads lineitem_orders supplier_nation ''L_SUPPKEY'' ''S_SUPPKEY'' num_threads
       = Inr temp_join"
    "\<forall>x\<in>set temp_join.
        row_inv F [''N_NAME'', ''L_EXTENDEDPRICE'', ''L_DISCOUNT'', ''C_NATIONKEY'', ''S_NATIONKEY''] x"
    "lineitem_orders = [] \<longrightarrow> temp_join = []"
    using join_row_inv [OF t lo(2) sn(2),
        of "[''N_NAME'', ''L_EXTENDEDPRICE'', ''L_DISCOUNT'', ''C_NATIONKEY'', ''S_NATIONKEY'']"
        "''L_SUPPKEY''" "''S_SUPPKEY''"]
    by auto
  have fj: "WHERE_throwing temp_join (\<lambda>r.
                    bind_err (map_at r ''C_NATIONKEY'') (\<lambda>c_nationkey.
                    bind_err (map_at r ''S_NATIONKEY'') (\<lambda>s_nationkey.
                      Inr (c_nationkey = s_nationkey)))) = Inr (filter keyq temp_join)"
  proof (rule WHERE_throwing_total, rule ballI)
    fix r assume "r \<in> set temp_join"
    with tj(2) have inv: "row_inv F [''N_NAME'', ''L_EXTENDEDPRICE'', ''L_DISCOUNT'',
        ''C_NATIONKEY'', ''S_NATIONKEY''] r" by blast
    have "map_at r ''C_NATIONKEY'' = Inr (the (map_of r ''C_NATIONKEY''))"
      using inv by (rule row_inv_map_at) simp
    moreover have "map_at r ''S_NATIONKEY'' = Inr (the (map_of r ''S_NATIONKEY''))"
      using inv by (rule row_inv_map_at) simp
    ultimately show "bind_err (map_at r ''C_NATIONKEY'') (\<lambda>c_nationkey.
                    bind_err (map_at r ''S_NATIONKEY'') (\<lambda>s_nationkey.
                      Inr (c_nationkey = s_nationkey))) = Inr (keyq r)"
      by (simp add: keyq_def)
  qed
  have "\<forall>x\<in>set (filter keyq temp_join). row_inv F [''N_NAME'', ''L_EXTENDEDPRICE'', ''L_DISCOUNT''] x"
  proof
    fix x assume "x \<in> set (filter keyq temp_join)"
    with tj(2) have "row_inv F [''N_NAME'', ''L_EXTENDEDPRICE'', ''L_DISCOUNT'',
        ''C_NATIONKEY'', ''S_NATIONKEY''] x" by simp
    then show "row_inv F [''N_NAME'', ''L_EXTENDEDPRICE'', ''L_DISCOUNT''] x"
      by (rule row_inv_mono) simp
  qed
  then obtain with_revenue where wr:
    "revenue_rows F (filter keyq temp_join) = Inr with_revenue"
    "\<forall>y\<in>set with_revenue. is_revenue_row F y"
    "filter keyq temp_join = [] \<longrightarrow> with_revenue = []"
    using revenue_rows_ok by blast
  obtain aggregated where ag:
    "aggregate_rows F (GROUP_BY with_revenue ''N_NAME'') = Inr aggregated"
    "\<forall>y\<in>set aggregated. is_revenue_row F y"
    "with_revenue = [] \<longrightarrow> aggregated = []"
    using aggregate_rows_ok [OF p wr(2)] by blast
  obtain sorted_rows where so:
    "ORDER_BY_DESC_stod F srt aggregated ''REVENUE'' = Inr sorted_rows"
    "mset sorted_rows = mset aggregated"
    using ORDER_BY_DESC_stod_ok [OF lib ag(2)] by blast
  from so(2) have "set sorted_rows = set aggregated" by (rule mset_eq_setD)
  with ag(2) have "\<forall>y\<in>set sorted_rows. is_revenue_row F y" by simp
  then obtain res where rs:
    "store_results F sorted_rows results = Inr res" "sorted_rows = [] \<longrightarrow> res = results"
    using store_results_ok [OF p] by blast
  have run: "executeQuery5 F srt r_name start_date end_date num_threads customer_data orders_data
             lineitem_data supplier_data nation_data region_data results = Inr (True, res)"
    unfolding executeQuery5_def Let_def
    using False
    by (simp only: filtered_region_def [symmetric] if_False nr(1) cn(1) fo co(1) sn(1) lo(1) tj(1)
        fj wr(1) ag(1) so(1) rs(1) bind_err_Inr)
  have "res = results" if "filter dateq orders_data = []"
  proof -
    from that co(3) lo(3) tj(3) have "temp_join = []" by simp
    with wr(3) ag(3) have "aggregated = []" by simp
    with so(2) have "sorted_rows = []" by simp
    with rs(2) show ?thesis by simp
  qed
  with run False show ?thesis
    unfolding dateq_def by (intro exI [of _ True] exI [of _ res]) simp
qed

text \<open>The example instance of the library satisfies what is assumed of the library.\<close>

lemma library_ok_ex: "library_ok fp_ex sort_ex"
proof -
  have "strict_weak_order ((<) :: real \<Rightarrow> real \<Rightarrow> bool)"
    by (auto simp: strict_weak_order_def)
  moreover have "\<forall>d. stod fp_ex (to_string fp_ex d) \<noteq> None"
    by (simp add: fp_ex_def stod_ex_def to_string_ex_def)
  ultimately show ?thesis
    using sort_ex_contract by (simp add: library_ok_def fp_ex_def)
qed

text \<open>
  The theorem on the scenario of the specification: with the order's date in range the result
  is the revenue \<open>100.0 * (1 - 0.1)\<close> of the one nation; with a date range that excludes the
  order the call succeeds with an empty map; with a region name that matches no region it
  returns \<open>false\<close>.
\<close>

theorem query5_fails_only_on_empty_region_witness:
  "(0::int) < 2 \<and> (2::int) < 2 ^ 31 \<and> library_ok fp_ex sort_ex
   \<and> well_formed_inputs fp_ex wcustomer worders wlineitem wsupplier wnation wregion
   \<and> executeQuery5 fp_ex sort_ex ''ASIA'' ''1994-01-01'' ''1995-01-01'' 2
        wcustomer worders wlineitem wsupplier wnation wregion [] = Inr (True, [(''CHINA'', 90)])
   \<and> executeQuery5 fp_ex sort_ex ''ASIA'' ''1995-01-01'' ''1996-01-01'' 2
        wcustomer worders wlineitem wsupplier wnation wregion [] = Inr (True, [])
   \<and> executeQuery5 fp_ex sort_ex ''EUROPE'' ''1994-01-01'' ''1995-01-01'' 2
        wcustomer worders wlineitem wsupplier wnation wregion [] = Inr (False, [])
   \<and> (\<exists>ok res.
         executeQuery5 fp_ex sort_ex ''ASIA'' ''1995-01-01'' ''1996-01-01'' 2
           wcustomer worders wlineitem wsupplier wnation wregion [] = Inr (ok, res)
       \<and> (\<not> ok \<longleftrightarrow> WHERE wregion (EQUALS ''R_NAME'' ''ASIA'') = [])
       \<and> (\<not> ok \<longrightarrow> res = [])
       \<and> (ok \<and> filter (\<lambda>r. the (map_of r ''O_ORDERDATE'') \<ge> ''1995-01-01''
                            \<and> the (map_of r ''O_ORDERDATE'') < ''1996-01-01'') worders = []
            \<longrightarrow> res = []))"
proof -
  let ?nr = "[[(''N_NAME'', ''CHINA''), (''N_NATIONKEY'', ''10''), (''N_REGIONKEY'', ''1''),
               (''R_NAME'', ''ASIA''), (''R_REGIONKEY'', ''1'')],
              [(''N_NAME'', ''INDIA''), (''N_NATIONKEY'', ''11''), (''N_REGIONKEY'', ''1''),
               (''R_NAME'', ''ASIA''), (''R_REGIONKEY'', ''1'')]]"
  let ?cn = "[[(''C_CUSTKEY'', ''100''), (''C_NATIONKEY'', ''10''), (''N_NAME'', ''CHINA''),
               (''N_NATIONKEY'', ''10''), (''N_REGIONKEY'', ''1''), (''R_NAME'', ''ASIA''),
               (''R_REGIONKEY'', ''1'')]]"
  let ?co = "[[(''C_CUSTKEY'', ''100''), (''C_NATIONKEY'', ''10''), (''N_NAME'', ''CHINA''),
               (''N_NATIONKEY'', ''10''), (''N_REGIONKEY'', ''1''), (''O_CUSTKEY'', ''100''),
               (''O_ORDERDATE'', ''1994-06-01''), (''O_ORDERKEY'', ''1000''),
               (''R_NAME'', ''ASIA''), (''R_REGIONKEY'', ''1'')]]"
  let ?sn = "[[(''N_NAME'', ''CHINA''), (''N_NATIONKEY'', ''10''), (''N_REGIONKEY'', ''1''),
               (''R_NAME'', ''ASIA''), (''R_REGIONKEY'', ''1''), (''S_NATIONKEY'', ''10''),
               (''S_SUPPKEY'', ''500'')]]"
  let ?lo = "[[(''C_CUSTKEY'', ''100''), (''C_NATIONKEY'', ''10''), (''L_DISCOUNT'', ''0.1''),
               (''L_EXTENDEDPRICE'', ''100.0''), (''L_ORDERKEY'', ''1000''), (''L_SUPPKEY'', ''500''),
               (''N_NAME'', ''CHINA''), (''N_NATIONKEY'', ''10''), (''N_REGIONKEY'', ''1''),
               (''O_CUSTKEY'', ''100''), (''O_ORDERDATE'', ''1994-06-01''), (''O_ORDERKEY'', ''1000''),
               (''R_NAME'', ''ASIA''), (''R_REGIONKEY'', ''1'')]]"
  let ?tj = "[[(''C_CUSTKEY'', ''100''), (''C_NATIONKEY'', ''10''), (''L_DISCOUNT'', ''0.1''),
               (''L_EXTENDEDPRICE'', ''100.0''), (''L_ORDERKEY'', ''1000''), (''L_SUPPKEY'', ''500''),
               (''N_NAME'', ''CHINA''), (''N_NATIONKEY'', ''10''), (''N_REGIONKEY'', ''1''),
               (''O_CUSTKEY'', ''100''), (''O_ORDERDATE'', ''1994-06-01''), (''O_ORDERKEY'', ''1000''),
               (''R_NAME'', ''ASIA''), (''R_REGIONKEY'', ''1''), (''S_NATIONKEY'', ''10''),
               (''S_SUPPKEY'', ''500'')]]"
  let ?wr = "[[(''N_NAME'', ''CHINA''), (''REVENUE'', ''90.000000'')]]"
  let ?keyp = "\<lambda>r. bind_err (map_at r ''C_NATIONKEY'') (\<lambda>c_nationkey.
                    bind_err (map_at r ''S_NATIONKEY'') (\<lambda>s_nationkey.
                      Inr (c_nationkey = s_nationkey)))"
  have t: "(0::int) < 2" "(2::int) < 2 ^ 31" by simp_all
  have wf: "well_formed_inputs fp_ex wcustomer worders wlineitem wsupplier wnation wregion"
    by code_simp
  have r0: "WHERE wregion (EQUALS ''R_NAME'' ''ASIA'') = wregion"
    and r0': "WHERE wregion (EQUALS ''R_NAME'' ''EUROPE'') = []"
    and ne: "wregion \<noteq> []"
    by code_simp+
  have s1: "INNER_JOIN_threads wnation wregion ''N_REGIONKEY'' ''R_REGIONKEY'' 2 = Inr ?nr"
    by code_simp
  have s2: "INNER_JOIN_threads wcustomer ?nr ''C_NATIONKEY'' ''N_NATIONKEY'' 2 = Inr ?cn"
    by code_simp
  have s3: "WHERE_throwing worders (\<lambda>r. bind_err (map_at r ''O_ORDERDATE'') (\<lambda>date.
               Inr (date \<ge> ''1994-01-01'' \<and> date < ''1995-01-01''))) = Inr worders"
    by code_simp
  have s3': "WHERE_throwing worders (\<lambda>r. bind_err (map_at r ''O_ORDERDATE'') (\<lambda>date.
               Inr (date \<ge> ''1995-01-01'' \<and> date < ''1996-01-01''))) = Inr []"
    by code_simp
  have s4: "INNER_JOIN_threads ?cn worders ''C_CUSTKEY'' ''O_CUSTKEY'' 2 = Inr ?co"
    by code_simp
  have s4': "INNER_JOIN_threads ?cn [] ''C_CUSTKEY'' ''O_CUSTKEY'' 2 = Inr []"
    by code_simp
  have s5: "INNER_JOIN_threads wsupplier ?nr ''S_NATIONKEY'' ''N_NATIONKEY'' 2 = Inr ?sn"
    by code_simp
  have s6: "INNER_JOIN_threads wlineitem ?co ''L_ORDERKEY'' ''O_ORDERKEY'' 2 = Inr ?lo"
    by code_simp
  have s6': "INNER_JOIN_threads wlineitem [] ''L_ORDERKEY'' ''O_ORDERKEY'' 2 = Inr []"
    by code_simp
  have s7: "INNER_JOIN_threads ?lo ?sn ''L_SUPPKEY'' ''S_SUPPKEY'' 2 = Inr ?tj"
    by code_simp
  have s7': "INNER_JOIN_threads [] ?sn ''L_SUPPKEY'' ''S_SUPPKEY'' 2 = Inr []"
    by code_simp
  have s8: "WHERE_throwing ?tj ?keyp = Inr ?tj"
    by code_simp
  have s8': "WHERE_throwing [] ?keyp = Inr []"
    by code_simp
  have s9: "revenue_rows fp_ex ?tj = Inr ?wr"
    by code_simp
  have s9': "revenue_rows fp_ex [] = Inr []"
    by code_simp
  have s10: "aggregate_rows fp_ex (GROUP_BY ?wr ''N_NAME'') = Inr ?wr"
    by code_simp
  have s10': "aggregate_rows fp_ex (GROUP_BY [] ''N_NAME'') = Inr []"
    by code_simp
  have s11: "ORDER_BY_DESC_stod fp_ex sort_ex ?wr ''REVENUE'' = Inr ?wr"
    by code_simp
  have s11': "ORDER_BY_DESC_stod fp_ex sort_ex [] ''REVENUE'' = Inr []"
    by code_simp
  have s12: "store_results fp_ex ?wr [] = Inr [(''CHINA'', 90)]"
    by code_simp
  have s12': "store_results fp_ex [] [] = Inr []"
    by code_simp
  have in_range: "executeQuery5 fp_ex sort_ex ''ASIA'' ''1994-01-01'' ''1995-01-01'' 2
        wcustomer worders wlineitem wsupplier wnation wregion [] = Inr (True, [(''CHINA'', 90)])"
    unfolding executeQuery5_def Let_def r0
    by (simp only: ne if_False s1 s2 s3 s4 s5 s6 s7 s8 s9 s10 s11 s12 bind_err_Inr)
  have out_of_range: "executeQuery5 fp_ex sort_ex ''ASIA'' ''1995-01-01'' ''1996-01-01'' 2
        wcustomer worders wlineitem wsupplier wnation wregion [] = Inr (True, [])"
    unfolding executeQuery5_def Let_def r0
    by (simp only: ne if_False s1 s2 s3' s4' s5 s6' s7' s8' s9' s10' s11' s12' bind_err_Inr)
  have no_region: "executeQuery5 fp_ex sort_ex ''EUROPE'' ''1994-01-01'' ''1995-01-01'' 2
        wcustomer worders wlineitem wsupplier wnation wregion [] = Inr (False, [])"
    unfolding executeQuery5_def Let_def r0' by (simp only: simp_thms if_True)
  from t library_ok_ex wf in_range out_of_range no_region
    query5_fails_only_on_empty_region [OF t library_ok_ex wf, of "''ASIA''" "''1995-01-01''"
      "''1996-01-01''" "[]"]
  show ?thesis by (intro conjI)
qed

end
